theory Spec2Isabelle
  imports Main "HOL-Library.Word"
begin

section \<open>The memory model\<close>

text \<open>
  The container of \<^verbatim>\<open>SingleLinkedList.h\<close> is a chain of \<^verbatim>\<open>Node\<close> objects linked by raw
  pointers, and its iterators are raw pointers into that chain. The model keeps the
  pointers: memory is an array of cells indexed by address, a cell holds a live
  \<^verbatim>\<open>Node\<close> or nothing (never allocated, or freed by \<^verbatim>\<open>delete\<close>), \<^verbatim>\<open>new\<close> takes the first
  address past the array and no address is handed out twice. A pointer is an
  \<open>addr option\<close>, \<open>None\<close> being \<^verbatim>\<open>nullptr\<close>.

  A \<^verbatim>\<open>SingleLinkedList\<close> object has two members, the sentinel \<^verbatim>\<open>Node head_\<close> and the counter
  \<^verbatim>\<open>size_t size_\<close>. The object is identified with the address of its \<^verbatim>\<open>head_\<close>, which is a
  cell of the memory like every other node (iterators point to it): a cell holds either
  a plain \<^verbatim>\<open>Node\<close> or a list object, that is a \<^verbatim>\<open>Node\<close> and a counter. The counter is a 64-bit
  \<^verbatim>\<open>size_t\<close>: increments and decrements wrap as in the source.
\<close>

type_synonym addr = nat
type_synonym size_t = "64 word"

record 'a Node =
  node_value :: 'a
  next_node :: "addr option"

datatype 'a object =
    NodeObj "'a Node"
  | ListObj "'a Node" size_t

record 'a heap =
  mem :: "'a object option list"

text \<open>
  What the container uses of its template parameter \<^verbatim>\<open>Type\<close>: the value a
  value-initialised \<^verbatim>\<open>Type\<close> has (the sentinel holds one), and whether copy-constructing
  from a given value throws. A copy that does not throw is the value copied.
  Comparison of elements is HOL's equality and the order of the type.
\<close>

record 'a Type_ops =
  default_ctor :: 'a
  copy_throws :: "'a \<Rightarrow> bool"

text \<open>
  An operation ends in one of three ways: it returns a result and a memory, it throws
  and leaves the memory that stack unwinding produced, or it has undefined behaviour
  (a null or dangling pointer is dereferenced, an \<^verbatim>\<open>assert\<close> fails).
\<close>

datatype 'a error = Thrown "'a heap" | Undefined

type_synonym ('r, 'a) result = "'a error + 'r \<times> 'a heap"

type_synonym Iterator = "addr option"

definition empty_heap :: "'a heap" where
  "empty_heap = \<lparr>mem = []\<rparr>"

definition cell :: "'a heap \<Rightarrow> addr \<Rightarrow> 'a object option" where
  "cell h a = (if a < length (mem h) then mem h ! a else None)"

text \<open>The \<^verbatim>\<open>Node\<close> at an address: a plain node, or the \<^verbatim>\<open>head_\<close> of a list object.\<close>

definition nodes :: "'a heap \<Rightarrow> addr \<Rightarrow> 'a Node option" where
  "nodes h a =
     (case cell h a of
        None \<Rightarrow> None
      | Some (NodeObj n) \<Rightarrow> Some n
      | Some (ListObj n s) \<Rightarrow> Some n)"

text \<open>The member \<^verbatim>\<open>size_\<close> of the list object at an address.\<close>

definition size_m :: "'a heap \<Rightarrow> addr \<Rightarrow> size_t option" where
  "size_m h a =
     (case cell h a of
        None \<Rightarrow> None
      | Some (NodeObj n) \<Rightarrow> None
      | Some (ListObj n s) \<Rightarrow> Some s)"

definition store_node :: "addr \<Rightarrow> 'a Node \<Rightarrow> 'a heap \<Rightarrow> 'a heap" where
  "store_node a n h =
     (case cell h a of
        None \<Rightarrow> h
      | Some (NodeObj n0) \<Rightarrow> h\<lparr>mem := (mem h)[a := Some (NodeObj n)]\<rparr>
      | Some (ListObj n0 s) \<Rightarrow> h\<lparr>mem := (mem h)[a := Some (ListObj n s)]\<rparr>)"

definition store_size :: "addr \<Rightarrow> size_t \<Rightarrow> 'a heap \<Rightarrow> 'a heap" where
  "store_size a s h =
     (case cell h a of
        Some (ListObj n s0) \<Rightarrow> h\<lparr>mem := (mem h)[a := Some (ListObj n s)]\<rparr>
      | _ \<Rightarrow> h)"

definition delete_node :: "addr \<Rightarrow> 'a heap \<Rightarrow> 'a heap" where
  "delete_node a h = h\<lparr>mem := (mem h)[a := None]\<rparr>"

text \<open>
  \<^verbatim>\<open>new Node(val, next)\<close>: the constructor copies \<^verbatim>\<open>val\<close>; when the copy throws, the
  storage is released again and memory is as before.
\<close>

definition new_Node :: "'a Type_ops \<Rightarrow> 'a \<Rightarrow> addr option \<Rightarrow> 'a heap \<Rightarrow> (addr, 'a) result" where
  "new_Node T val nxt h =
     (if copy_throws T val then Inl (Thrown h)
      else Inr (length (mem h),
                h\<lparr>mem := mem h @ [Some (NodeObj \<lparr>node_value = val, next_node = nxt\<rparr>)]\<rparr>))"

section \<open>BasicIterator\<close>

text \<open>An iterator is its \<^verbatim>\<open>node_\<close> pointer.\<close>

definition iter_incr :: "'a heap \<Rightarrow> Iterator \<Rightarrow> 'a error + Iterator" where
  "iter_incr h it =
     (case it of
        None \<Rightarrow> Inl Undefined
      | Some a \<Rightarrow> (case nodes h a of None \<Rightarrow> Inl Undefined | Some n \<Rightarrow> Inr (next_node n)))"

definition iter_deref :: "'a heap \<Rightarrow> Iterator \<Rightarrow> 'a error + 'a" where
  "iter_deref h it =
     (case it of
        None \<Rightarrow> Inl Undefined
      | Some a \<Rightarrow> (case nodes h a of None \<Rightarrow> Inl Undefined | Some n \<Rightarrow> Inr (node_value n)))"

definition iter_eq :: "Iterator \<Rightarrow> Iterator \<Rightarrow> bool" where
  "iter_eq it rhs = (it = rhs)"

definition iter_neq :: "Iterator \<Rightarrow> Iterator \<Rightarrow> bool" where
  "iter_neq it rhs = (it \<noteq> rhs)"

section \<open>SingleLinkedList\<close>

definition list_begin :: "'a heap \<Rightarrow> addr \<Rightarrow> 'a error + Iterator" where
  "list_begin h this =
     (case nodes h this of None \<Rightarrow> Inl Undefined | Some hn \<Rightarrow> Inr (next_node hn))"

definition list_end :: Iterator where
  "list_end = None"

definition before_begin :: "addr \<Rightarrow> Iterator" where
  "before_begin this = Some this"

definition GetSize :: "'a heap \<Rightarrow> addr \<Rightarrow> 'a error + size_t" where
  "GetSize h this = (case size_m h this of None \<Rightarrow> Inl Undefined | Some n \<Rightarrow> Inr n)"

definition IsEmpty :: "'a heap \<Rightarrow> addr \<Rightarrow> 'a error + bool" where
  "IsEmpty h this = (case size_m h this of None \<Rightarrow> Inl Undefined | Some n \<Rightarrow> Inr (n = 0))"

definition InsertAfter ::
  "'a Type_ops \<Rightarrow> addr \<Rightarrow> Iterator \<Rightarrow> 'a \<Rightarrow> 'a heap \<Rightarrow> (Iterator, 'a) result" where
  "InsertAfter T this pos val h =
     (case pos of
        None \<Rightarrow> Inl Undefined
      | Some p \<Rightarrow>
          (case nodes h p of
             None \<Rightarrow> Inl Undefined
           | Some pn \<Rightarrow>
               (case new_Node T val (next_node pn) h of
                  Inl e \<Rightarrow> Inl e
                | Inr (insert_node, h1) \<Rightarrow>
                    let h2 = store_node p (pn\<lparr>next_node := Some insert_node\<rparr>) h1
                    in (case size_m h2 this of
                          None \<Rightarrow> Inl Undefined
                        | Some n \<Rightarrow>
                            Inr (Some insert_node,
                                 store_size this (n + 1) h2)))))"

definition EraseAfter :: "addr \<Rightarrow> Iterator \<Rightarrow> 'a heap \<Rightarrow> (Iterator, 'a) result" where
  "EraseAfter this pos h =
     (case pos of
        None \<Rightarrow> Inl Undefined
      | Some p \<Rightarrow>
          (case nodes h p of
             None \<Rightarrow> Inl Undefined
           | Some pn \<Rightarrow>
               (case next_node pn of
                  None \<Rightarrow> Inl Undefined
                | Some temp \<Rightarrow>
                    (case nodes h temp of
                       None \<Rightarrow> Inl Undefined
                     | Some tn \<Rightarrow>
                         let h1 = store_node p (pn\<lparr>next_node := next_node tn\<rparr>) h;
                             h2 = delete_node temp h1
                         in (case size_m h2 this of
                               None \<Rightarrow> Inl Undefined
                             | Some n \<Rightarrow>
                                 let h3 = store_size this (n - 1) h2
                                 in (case nodes h3 p of
                                       None \<Rightarrow> Inl Undefined
                                     | Some pn' \<Rightarrow> Inr (next_node pn', h3)))))))"

definition PushFront :: "'a Type_ops \<Rightarrow> addr \<Rightarrow> 'a \<Rightarrow> 'a heap \<Rightarrow> (unit, 'a) result" where
  "PushFront T this val h =
     (case nodes h this of
        None \<Rightarrow> Inl Undefined
      | Some hn \<Rightarrow>
          (case new_Node T val (next_node hn) h of
             Inl e \<Rightarrow> Inl e
           | Inr (n, h1) \<Rightarrow>
               let h2 = store_node this (hn\<lparr>next_node := Some n\<rparr>) h1
               in (case size_m h2 this of
                     None \<Rightarrow> Inl Undefined
                   | Some k \<Rightarrow> Inr ((), store_size this (k + 1) h2))))"

definition PopFront :: "addr \<Rightarrow> 'a heap \<Rightarrow> (unit, 'a) result" where
  "PopFront this h =
     (case EraseAfter this (before_begin this) h of
        Inl e \<Rightarrow> Inl e
      | Inr (it, h') \<Rightarrow> Inr ((), h'))"

text \<open>
  \<^verbatim>\<open>Clear\<close> loops while the sentinel has a successor. On a cyclic chain the loop would
  still end, every round frees a node, but the traversing loops below need not, so all
  loops over the chain are partial functions: \<open>None\<close> is a loop that never returns.
\<close>

partial_function (option) Clear :: "addr \<Rightarrow> 'a heap \<Rightarrow> (unit, 'a) result option" where
  "Clear this h =
     (case nodes h this of
        None \<Rightarrow> Some (Inl Undefined)
      | Some hn \<Rightarrow>
          if next_node hn \<noteq> None
          then (case PopFront this h of
                  Inl e \<Rightarrow> Some (Inl e)
                | Inr (u, h') \<Rightarrow> Clear this h')
          else Some (Inr ((), h)))"

declare Clear.simps [code]

definition swap :: "addr \<Rightarrow> addr \<Rightarrow> 'a heap \<Rightarrow> (unit, 'a) result" where
  "swap this other h =
     (case (nodes h this, nodes h other) of
        (Some hn, Some ohd) \<Rightarrow>
          let h1 = store_node this (hn\<lparr>next_node := next_node ohd\<rparr>) h;
              h2 = store_node other (ohd\<lparr>next_node := next_node hn\<rparr>) h1
          in (case (size_m h2 this, size_m h2 other) of
                (Some n, Some m) \<Rightarrow>
                  Inr ((), store_size other n (store_size this m h2))
              | _ \<Rightarrow> Inl Undefined)
      | _ \<Rightarrow> Inl Undefined)"


text \<open>
  Storage for a list object: the default member initialisers \<^verbatim>\<open>head_ = {}\<close> and
  \<^verbatim>\<open>size_ = 0\<close> run when the object comes to life, and the members go away with it.
  \<^verbatim>\<open>SingleLinkedList() = default\<close> does nothing more.
\<close>

definition alloc_list :: "'a Type_ops \<Rightarrow> 'a heap \<Rightarrow> addr \<times> 'a heap" where
  "alloc_list T h =
     (length (mem h),
      h\<lparr>mem := mem h @ [Some (ListObj \<lparr>node_value = default_ctor T, next_node = None\<rparr> 0)]\<rparr>)"

definition release_list :: "addr \<Rightarrow> 'a heap \<Rightarrow> 'a heap" where
  "release_list this h = h\<lparr>mem := (mem h)[this := None]\<rparr>"

definition SingleLinkedList_default :: "'a Type_ops \<Rightarrow> 'a heap \<Rightarrow> addr \<times> 'a heap" where
  "SingleLinkedList_default T h = alloc_list T h"

text \<open>The destructor calls \<^verbatim>\<open>Clear\<close>; then the object's storage is gone.\<close>

definition SingleLinkedList_dtor :: "addr \<Rightarrow> 'a heap \<Rightarrow> (unit, 'a) result option" where
  "SingleLinkedList_dtor this h =
     (case Clear this h of
        None \<Rightarrow> None
      | Some (Inl e) \<Rightarrow> Some (Inl e)
      | Some (Inr (u, h')) \<Rightarrow> Some (Inr ((), release_list this h')))"

text \<open>
  The body of the loop of \<^verbatim>\<open>CopyList\<close>, \<^verbatim>\<open>++node_it = InsertAfter(node_it, val); ++tmp.size_;\<close>.
  \<^verbatim>\<open>InsertAfter\<close> is called on \<^verbatim>\<open>*this\<close>, not on \<^verbatim>\<open>tmp\<close>, with a position in the chain of
  \<^verbatim>\<open>tmp\<close>: the node goes into the chain of \<^verbatim>\<open>tmp\<close> and the counter of \<^verbatim>\<open>*this\<close> is
  incremented, and the next statement increments the counter of \<^verbatim>\<open>tmp\<close>. The right
  operand of the assignment is evaluated before the left one (C++17), so the increment
  of \<^verbatim>\<open>node_it\<close> runs after the insertion and its result is overwritten.
\<close>

definition CopyList_step ::
  "'a Type_ops \<Rightarrow> addr \<Rightarrow> addr \<Rightarrow> Iterator \<Rightarrow> 'a \<Rightarrow> 'a heap \<Rightarrow> (Iterator, 'a) result" where
  "CopyList_step T this tmp node_it val h =
     (case InsertAfter T this node_it val h of
        Inl e \<Rightarrow> Inl e
      | Inr (r, h1) \<Rightarrow>
          (case iter_incr h1 node_it of
             Inl e \<Rightarrow> Inl e
           | Inr advanced \<Rightarrow>
               (case size_m h1 tmp of
                  None \<Rightarrow> Inl Undefined
                | Some n \<Rightarrow> Inr (r, store_size tmp (n + 1) h1))))"

text \<open>The range-based \<^verbatim>\<open>for\<close> of \<^verbatim>\<open>CopyList\<close> over a \<^verbatim>\<open>std::initializer_list\<close>.\<close>

fun CopyList_loop_il ::
  "'a Type_ops \<Rightarrow> addr \<Rightarrow> addr \<Rightarrow> Iterator \<Rightarrow> 'a list \<Rightarrow> 'a heap \<Rightarrow> (Iterator, 'a) result" where
  "CopyList_loop_il T this tmp node_it [] h = Inr (node_it, h)"
| "CopyList_loop_il T this tmp node_it (val # vals) h =
     (case CopyList_step T this tmp node_it val h of
        Inl e \<Rightarrow> Inl e
      | Inr (node_it', h') \<Rightarrow> CopyList_loop_il T this tmp node_it' vals h')"

text \<open>
  The same loop over a \<^verbatim>\<open>const SingleLinkedList&\<close>: it runs from \<^verbatim>\<open>other.begin()\<close> to
  \<^verbatim>\<open>other.end()\<close> with the iterator's own \<^verbatim>\<open>!=\<close>, \<^verbatim>\<open>*\<close> and \<^verbatim>\<open>++\<close>.
\<close>

partial_function (option) CopyList_loop_list ::
  "'a Type_ops \<Rightarrow> addr \<Rightarrow> addr \<Rightarrow> Iterator \<Rightarrow> Iterator \<Rightarrow> 'a heap \<Rightarrow> (Iterator, 'a) result option"
where
  "CopyList_loop_list T this tmp node_it it h =
     (if iter_neq it list_end
      then (case iter_deref h it of
              Inl e \<Rightarrow> Some (Inl e)
            | Inr val \<Rightarrow>
                (case CopyList_step T this tmp node_it val h of
                   Inl e \<Rightarrow> Some (Inl e)
                 | Inr (node_it', h') \<Rightarrow>
                     (case iter_incr h' it of
                        Inl e \<Rightarrow> Some (Inl e)
                      | Inr it' \<Rightarrow> CopyList_loop_list T this tmp node_it' it' h')))
      else Some (Inr (node_it, h)))"

declare CopyList_loop_list.simps [code]

text \<open>
  After the loop \<^verbatim>\<open>CopyList\<close> swaps \<^verbatim>\<open>*this\<close> with \<^verbatim>\<open>tmp\<close> and \<^verbatim>\<open>tmp\<close> is destroyed; when the
  loop threw, unwinding destroys \<^verbatim>\<open>tmp\<close> and the exception goes on.
\<close>

definition CopyList_finish ::
  "addr \<Rightarrow> addr \<Rightarrow> (Iterator, 'a) result \<Rightarrow> (unit, 'a) result option" where
  "CopyList_finish this tmp r =
     (case r of
        Inl (Thrown h) \<Rightarrow>
          (case SingleLinkedList_dtor tmp h of
             None \<Rightarrow> None
           | Some (Inl e) \<Rightarrow> Some (Inl e)
           | Some (Inr (u, h')) \<Rightarrow> Some (Inl (Thrown h')))
      | Inl Undefined \<Rightarrow> Some (Inl Undefined)
      | Inr (node_it, h) \<Rightarrow>
          (case swap this tmp h of
             Inl e \<Rightarrow> Some (Inl e)
           | Inr (u, h1) \<Rightarrow> SingleLinkedList_dtor tmp h1))"

definition CopyList_il :: "'a Type_ops \<Rightarrow> addr \<Rightarrow> 'a list \<Rightarrow> 'a heap \<Rightarrow> (unit, 'a) result option" where
  "CopyList_il T this vals h =
     (case SingleLinkedList_default T h of
        (tmp, h0) \<Rightarrow>
          CopyList_finish this tmp (CopyList_loop_il T this tmp (before_begin tmp) vals h0))"

definition CopyList_list :: "'a Type_ops \<Rightarrow> addr \<Rightarrow> addr \<Rightarrow> 'a heap \<Rightarrow> (unit, 'a) result option" where
  "CopyList_list T this other h =
     (case SingleLinkedList_default T h of
        (tmp, h0) \<Rightarrow>
          (case list_begin h0 other of
             Inl e \<Rightarrow> Some (Inl e)
           | Inr first \<Rightarrow>
               (case CopyList_loop_list T this tmp (before_begin tmp) first h0 of
                  None \<Rightarrow> None
                | Some r \<Rightarrow> CopyList_finish this tmp r)))"

text \<open>
  The constructors. When the body of a constructor throws, the members of the object
  under construction are destroyed (its destructor does not run) and the exception
  goes on.
\<close>

definition SingleLinkedList_init :: "'a Type_ops \<Rightarrow> 'a list \<Rightarrow> 'a heap \<Rightarrow> (addr, 'a) result option" where
  "SingleLinkedList_init T vals h =
     (case alloc_list T h of
        (this, h0) \<Rightarrow>
          (case CopyList_il T this vals h0 of
             None \<Rightarrow> None
           | Some (Inl (Thrown h1)) \<Rightarrow> Some (Inl (Thrown (release_list this h1)))
           | Some (Inl Undefined) \<Rightarrow> Some (Inl Undefined)
           | Some (Inr (u, h1)) \<Rightarrow> Some (Inr (this, h1))))"

definition SingleLinkedList_copy :: "'a Type_ops \<Rightarrow> addr \<Rightarrow> 'a heap \<Rightarrow> (addr, 'a) result option" where
  "SingleLinkedList_copy T other h =
     (case alloc_list T h of
        (this, h0) \<Rightarrow>
          (case (size_m h0 this, list_begin h0 this) of
             (Some n, Inr first) \<Rightarrow>
               if n = 0 \<and> first = None
               then (case CopyList_list T this other h0 of
                       None \<Rightarrow> None
                     | Some (Inl (Thrown h1)) \<Rightarrow> Some (Inl (Thrown (release_list this h1)))
                     | Some (Inl Undefined) \<Rightarrow> Some (Inl Undefined)
                     | Some (Inr (u, h1)) \<Rightarrow> Some (Inr (this, h1)))
               else Some (Inl Undefined)
           | _ \<Rightarrow> Some (Inl Undefined)))"

text \<open>\<^verbatim>\<open>operator=\<close>; the result is \<^verbatim>\<open>*this\<close>.\<close>

definition assign :: "'a Type_ops \<Rightarrow> addr \<Rightarrow> addr \<Rightarrow> 'a heap \<Rightarrow> (addr, 'a) result option" where
  "assign T this rhs h =
     (if this = rhs then Some (Inr (this, h))
      else (case SingleLinkedList_copy T rhs h of
              None \<Rightarrow> None
            | Some (Inl e) \<Rightarrow> Some (Inl e)
            | Some (Inr (tmp, h1)) \<Rightarrow>
                (case swap this tmp h1 of
                   Inl e \<Rightarrow> Some (Inl e)
                 | Inr (u, h2) \<Rightarrow>
                     (case SingleLinkedList_dtor tmp h2 of
                        None \<Rightarrow> None
                      | Some (Inl e) \<Rightarrow> Some (Inl e)
                      | Some (Inr (u', h3)) \<Rightarrow> Some (Inr (this, h3))))))"

section \<open>Comparison\<close>

text \<open>
  The comparison operators call two algorithms of the standard library, which are
  written out here as the C++ standard defines them: \<^verbatim>\<open>std::equal\<close> with three
  iterators walks the first range and reads the second one alongside without a bound,
  \<^verbatim>\<open>std::lexicographical_compare\<close> walks both ranges to the end of the shorter one.
\<close>

partial_function (option) std_equal ::
  "'a heap \<Rightarrow> Iterator \<Rightarrow> Iterator \<Rightarrow> Iterator \<Rightarrow> ('a error + bool) option" where
  "std_equal h first1 last1 first2 =
     (if iter_neq first1 last1
      then (case iter_deref h first1 of
              Inl e \<Rightarrow> Some (Inl e)
            | Inr x \<Rightarrow>
                (case iter_deref h first2 of
                   Inl e \<Rightarrow> Some (Inl e)
                 | Inr y \<Rightarrow>
                     if \<not> (x = y) then Some (Inr False)
                     else (case iter_incr h first1 of
                             Inl e \<Rightarrow> Some (Inl e)
                           | Inr next1 \<Rightarrow>
                               (case iter_incr h first2 of
                                  Inl e \<Rightarrow> Some (Inl e)
                                | Inr next2 \<Rightarrow> std_equal h next1 last1 next2))))
      else Some (Inr True))"

declare std_equal.simps [code]

partial_function (option) std_lexicographical_compare ::
  "('a::ord) heap \<Rightarrow> Iterator \<Rightarrow> Iterator \<Rightarrow> Iterator \<Rightarrow> Iterator \<Rightarrow> ('a error + bool) option"
where
  "std_lexicographical_compare h first1 last1 first2 last2 =
     (if iter_neq first1 last1 \<and> iter_neq first2 last2
      then (case iter_deref h first1 of
              Inl e \<Rightarrow> Some (Inl e)
            | Inr x \<Rightarrow>
                (case iter_deref h first2 of
                   Inl e \<Rightarrow> Some (Inl e)
                 | Inr y \<Rightarrow>
                     if x < y then Some (Inr True)
                     else if y < x then Some (Inr False)
                     else (case iter_incr h first1 of
                             Inl e \<Rightarrow> Some (Inl e)
                           | Inr next1 \<Rightarrow>
                               (case iter_incr h first2 of
                                  Inl e \<Rightarrow> Some (Inl e)
                                | Inr next2 \<Rightarrow>
                                    std_lexicographical_compare h next1 last1 next2 last2))))
      else Some (Inr (iter_eq first1 last1 \<and> iter_neq first2 last2)))"

declare std_lexicographical_compare.simps [code]

definition operator_eq :: "'a heap \<Rightarrow> addr \<Rightarrow> addr \<Rightarrow> ('a error + bool) option" where
  "operator_eq h lhs rhs =
     (case (list_begin h lhs, list_begin h rhs) of
        (Inr b1, Inr b2) \<Rightarrow> std_equal h b1 list_end b2
      | _ \<Rightarrow> Some (Inl Undefined))"

definition operator_neq :: "'a heap \<Rightarrow> addr \<Rightarrow> addr \<Rightarrow> ('a error + bool) option" where
  "operator_neq h lhs rhs =
     (case operator_eq h lhs rhs of
        None \<Rightarrow> None
      | Some (Inl e) \<Rightarrow> Some (Inl e)
      | Some (Inr b) \<Rightarrow> Some (Inr (\<not> b)))"

definition operator_lt :: "('a::ord) heap \<Rightarrow> addr \<Rightarrow> addr \<Rightarrow> ('a error + bool) option" where
  "operator_lt h lhs rhs =
     (case (list_begin h lhs, list_begin h rhs) of
        (Inr b1, Inr b2) \<Rightarrow> std_lexicographical_compare h b1 list_end b2 list_end
      | _ \<Rightarrow> Some (Inl Undefined))"

definition operator_le :: "('a::ord) heap \<Rightarrow> addr \<Rightarrow> addr \<Rightarrow> ('a error + bool) option" where
  "operator_le h lhs rhs =
     (case operator_lt h rhs lhs of
        None \<Rightarrow> None
      | Some (Inl e) \<Rightarrow> Some (Inl e)
      | Some (Inr b) \<Rightarrow> Some (Inr (\<not> b)))"

definition operator_gt :: "('a::ord) heap \<Rightarrow> addr \<Rightarrow> addr \<Rightarrow> ('a error + bool) option" where
  "operator_gt h lhs rhs = operator_lt h rhs lhs"

definition operator_ge :: "('a::ord) heap \<Rightarrow> addr \<Rightarrow> addr \<Rightarrow> ('a error + bool) option" where
  "operator_ge h lhs rhs =
     (case operator_lt h lhs rhs of
        None \<Rightarrow> None
      | Some (Inl e) \<Rightarrow> Some (Inl e)
      | Some (Inr b) \<Rightarrow> Some (Inr (\<not> b)))"

text \<open>
  Traversal as a client writes it, \<^verbatim>\<open>for (auto it = l.begin(); it != l.end(); ++it)\<close>,
  collecting \<^verbatim>\<open>*it\<close>.
\<close>

partial_function (option) traverse_from :: "'a heap \<Rightarrow> Iterator \<Rightarrow> ('a error + 'a list) option" where
  "traverse_from h it =
     (if iter_neq it list_end
      then (case iter_deref h it of
              Inl e \<Rightarrow> Some (Inl e)
            | Inr x \<Rightarrow>
                (case iter_incr h it of
                   Inl e \<Rightarrow> Some (Inl e)
                 | Inr it' \<Rightarrow>
                     Option.bind (traverse_from h it')
                       (\<lambda>r. Some (case r of Inl e \<Rightarrow> Inl e | Inr xs \<Rightarrow> Inr (x # xs)))))
      else Some (Inr []))"

declare traverse_from.simps [code]

definition traverse :: "'a heap \<Rightarrow> addr \<Rightarrow> ('a error + 'a list) option" where
  "traverse h this =
     (case list_begin h this of Inl e \<Rightarrow> Some (Inl e) | Inr first \<Rightarrow> traverse_from h first)"

section \<open>Well-formed lists\<close>

text \<open>
  The abstraction used by the proofs. \<open>chain m p axs\<close> says that following the links
  of the node map \<open>m\<close> from the pointer \<open>p\<close> visits exactly the nodes at the addresses
  \<open>map fst axs\<close>, which hold the values \<open>map snd axs\<close>, and then reaches \<^verbatim>\<open>nullptr\<close>.
  \<open>list_chain h this axs\<close> says it of the chain behind the sentinel of the list object
  \<open>this\<close>, and \<open>list_inv\<close> adds that the counter of the object is the number of nodes.
\<close>

fun chain :: "(addr \<Rightarrow> 'a Node option) \<Rightarrow> addr option \<Rightarrow> (addr \<times> 'a) list \<Rightarrow> bool" where
  "chain m p [] = (p = None)"
| "chain m p ((a, x) # axs) =
     (p = Some a \<and>
      (case m a of None \<Rightarrow> False | Some n \<Rightarrow> node_value n = x \<and> chain m (next_node n) axs))"

definition list_chain :: "'a heap \<Rightarrow> addr \<Rightarrow> (addr \<times> 'a) list \<Rightarrow> bool" where
  "list_chain h this axs =
     (case nodes h this of None \<Rightarrow> False | Some hn \<Rightarrow> chain (nodes h) (next_node hn) axs)"

definition list_inv :: "'a heap \<Rightarrow> addr \<Rightarrow> (addr \<times> 'a) list \<Rightarrow> bool" where
  "list_inv h this axs =
     (list_chain h this axs \<and> size_m h this = Some (of_nat (length axs)))"


section \<open>Example objects\<close>

text \<open>An element type whose copy constructor throws on the value 13, and a list of two elements.\<close>

definition T_nat :: "nat Type_ops" where
  "T_nat = \<lparr>default_ctor = 0, copy_throws = (\<lambda>v. v = 13)\<rparr>"

definition h_two :: "nat heap" where
  "h_two = \<lparr>mem = [Some (ListObj \<lparr>node_value = 0, next_node = Some 1\<rparr> 2),
                   Some (NodeObj \<lparr>node_value = 10, next_node = Some 2\<rparr>),
                   Some (NodeObj \<lparr>node_value = 20, next_node = None\<rparr>)]\<rparr>"

text \<open>A client that calls \<^verbatim>\<open>PushFront\<close> for each value of a sequence in turn.\<close>

fun PushFront_each :: "'a Type_ops \<Rightarrow> addr \<Rightarrow> 'a list \<Rightarrow> 'a heap \<Rightarrow> (unit, 'a) result" where
  "PushFront_each T this [] h = Inr ((), h)"
| "PushFront_each T this (v # vs) h =
     (case PushFront T this v h of
        Inl e \<Rightarrow> Inl e
      | Inr (u, h') \<Rightarrow> PushFront_each T this vs h')"

text \<open>The memory after one list was default-constructed in empty memory.\<close>

definition h_empty :: "nat heap" where
  "h_empty = snd (SingleLinkedList_default T_nat empty_heap)"

text \<open>
  The memories after constructing a list from \<open>{1}\<close> in empty memory, and then a second
  list from \<open>{1, 2}\<close>.
\<close>

definition h_one :: "nat heap" where
  "h_one = \<lparr>mem = [Some (ListObj \<lparr>node_value = 0, next_node = Some 2\<rparr> 1), None,
                   Some (NodeObj \<lparr>node_value = 1, next_node = None\<rparr>)]\<rparr>"

definition h_prefix :: "nat heap" where
  "h_prefix = \<lparr>mem = [Some (ListObj \<lparr>node_value = 0, next_node = Some 2\<rparr> 1), None,
                      Some (NodeObj \<lparr>node_value = 1, next_node = None\<rparr>),
                      Some (ListObj \<lparr>node_value = 0, next_node = Some 5\<rparr> 2), None,
                      Some (NodeObj \<lparr>node_value = 1, next_node = Some 6\<rparr>),
                      Some (NodeObj \<lparr>node_value = 2, next_node = None\<rparr>)]\<rparr>"

text \<open>
  A client obtains a position of a list by taking \<^verbatim>\<open>before_begin()\<close> and incrementing it
  a number of times.
\<close>

fun advance :: "'a heap \<Rightarrow> Iterator \<Rightarrow> nat \<Rightarrow> 'a error + Iterator" where
  "advance h it 0 = Inr it"
| "advance h it (Suc n) =
     (case iter_incr h it of Inl e \<Rightarrow> Inl e | Inr it' \<Rightarrow> advance h it' n)"

text \<open>
  The public operations as a client calls them. A constructor call brings a new list
  object to life, \<open>Call_dtor\<close> ends the life of one; every other call names the list
  object it is made on, which has to be alive, and a position is named by the number of
  increments that lead to it from \<^verbatim>\<open>before_begin()\<close>.
\<close>

datatype 'a call =
    Call_default
  | Call_init "'a list"
  | Call_copy addr
  | Call_dtor addr
  | Call_PushFront addr 'a
  | Call_PopFront addr
  | Call_InsertAfter addr nat 'a
  | Call_EraseAfter addr nat
  | Call_Clear addr
  | Call_swap addr addr
  | Call_assign addr addr

definition is_list :: "'a heap \<Rightarrow> addr \<Rightarrow> bool" where
  "is_list h l = (size_m h l \<noteq> None)"

definition forget :: "('r, 'a) result \<Rightarrow> (unit, 'a) result" where
  "forget r = (case r of Inl e \<Rightarrow> Inl e | Inr (x, h) \<Rightarrow> Inr ((), h))"

fun exec :: "'a Type_ops \<Rightarrow> 'a call \<Rightarrow> 'a heap \<Rightarrow> (unit, 'a) result option" where
  "exec T Call_default h = Some (Inr ((), snd (SingleLinkedList_default T h)))"
| "exec T (Call_init vs) h = map_option forget (SingleLinkedList_init T vs h)"
| "exec T (Call_copy other) h =
     (if is_list h other then map_option forget (SingleLinkedList_copy T other h)
      else Some (Inl Undefined))"
| "exec T (Call_dtor l) h =
     (if is_list h l then SingleLinkedList_dtor l h else Some (Inl Undefined))"
| "exec T (Call_PushFront l v) h =
     (if is_list h l then Some (PushFront T l v h) else Some (Inl Undefined))"
| "exec T (Call_PopFront l) h =
     (if is_list h l then Some (PopFront l h) else Some (Inl Undefined))"
| "exec T (Call_InsertAfter l n v) h =
     (if is_list h l
      then (case advance h (before_begin l) n of
              Inl e \<Rightarrow> Some (Inl e)
            | Inr pos \<Rightarrow> Some (forget (InsertAfter T l pos v h)))
      else Some (Inl Undefined))"
| "exec T (Call_EraseAfter l n) h =
     (if is_list h l
      then (case advance h (before_begin l) n of
              Inl e \<Rightarrow> Some (Inl e)
            | Inr pos \<Rightarrow> Some (forget (EraseAfter l pos h)))
      else Some (Inl Undefined))"
| "exec T (Call_Clear l) h =
     (if is_list h l then Clear l h else Some (Inl Undefined))"
| "exec T (Call_swap l other) h =
     (if is_list h l \<and> is_list h other then Some (swap l other h) else Some (Inl Undefined))"
| "exec T (Call_assign l rhs) h =
     (if is_list h l \<and> is_list h rhs then map_option forget (assign T l rhs h)
      else Some (Inl Undefined))"

text \<open>
  A run of calls. A call that throws leaves the memory its unwinding produced and the
  run goes on (the client caught the exception); undefined behaviour ends it.
\<close>

fun exec_all :: "'a Type_ops \<Rightarrow> 'a call list \<Rightarrow> 'a heap \<Rightarrow> (unit, 'a) result option" where
  "exec_all T [] h = Some (Inr ((), h))"
| "exec_all T (c # cs) h =
     (case exec T c h of
        None \<Rightarrow> None
      | Some (Inl (Thrown h')) \<Rightarrow> exec_all T cs h'
      | Some (Inl Undefined) \<Rightarrow> Some (Inl Undefined)
      | Some (Inr (u, h')) \<Rightarrow> exec_all T cs h')"

text \<open>The list objects a call may change.\<close>

fun targets :: "'a call \<Rightarrow> addr set" where
  "targets Call_default = {}"
| "targets (Call_init vs) = {}"
| "targets (Call_copy other) = {}"
| "targets (Call_dtor l) = {l}"
| "targets (Call_PushFront l v) = {l}"
| "targets (Call_PopFront l) = {l}"
| "targets (Call_InsertAfter l n v) = {l}"
| "targets (Call_EraseAfter l n) = {l}"
| "targets (Call_Clear l) = {l}"
| "targets (Call_swap l other) = {l, other}"
| "targets (Call_assign l rhs) = {l}"

text \<open>
  The invariant of the whole memory: every live list object is well-formed, and no two
  of them have a node (or a sentinel) in common.
\<close>

definition footprint :: "addr \<Rightarrow> (addr \<times> 'a) list \<Rightarrow> addr set" where
  "footprint l axs = insert l (fst ` set axs)"

definition heap_inv :: "'a heap \<Rightarrow> bool" where
  "heap_inv h =
     (\<exists>ch. (\<forall>l. is_list h l \<longrightarrow> list_inv h l (ch l))
          \<and> (\<forall>l l'. is_list h l \<and> is_list h l' \<and> l \<noteq> l'
                 \<longrightarrow> footprint l (ch l) \<inter> footprint l' (ch l') = {}))"

text \<open>
  What a call keeps: the invariant of the memory, and every list that is not among the
  targets \<open>X\<close> of the call, node for node.
\<close>

definition preserved :: "'a heap \<Rightarrow> addr set \<Rightarrow> 'a heap \<Rightarrow> bool" where
  "preserved h X h' =
     (heap_inv h' \<and> (\<forall>l axs. list_inv h l axs \<and> l \<notin> X \<longrightarrow> list_inv h' l axs))"

definition outcome_ok :: "'a heap \<Rightarrow> addr set \<Rightarrow> (unit, 'a) result \<Rightarrow> bool" where
  "outcome_ok h X r =
     (case r of
        Inl Undefined \<Rightarrow> True
      | Inl (Thrown h') \<Rightarrow> preserved h X h'
      | Inr (u, h') \<Rightarrow> preserved h X h')"

text \<open>
  The calls that insert or remove one element of the list \<open>l\<close>, and what each adds to
  the number of its elements when it returns.
\<close>

fun is_edit_of :: "addr \<Rightarrow> 'a call \<Rightarrow> bool" where
  "is_edit_of l (Call_PushFront k v) = (k = l)"
| "is_edit_of l (Call_PopFront k) = (k = l)"
| "is_edit_of l (Call_InsertAfter k n v) = (k = l)"
| "is_edit_of l (Call_EraseAfter k n) = (k = l)"
| "is_edit_of l c = False"

fun delta :: "addr \<Rightarrow> 'a call \<Rightarrow> int" where
  "delta l (Call_PushFront k v) = (if k = l then 1 else 0)"
| "delta l (Call_PopFront k) = (if k = l then - 1 else 0)"
| "delta l (Call_InsertAfter k n v) = (if k = l then 1 else 0)"
| "delta l (Call_EraseAfter k n) = (if k = l then - 1 else 0)"
| "delta l c = 0"

text \<open>
  The net count of a run for the list \<open>l\<close>: successful insertions minus successful
  removals. A call that throws counts nothing.
\<close>

fun net :: "'a Type_ops \<Rightarrow> addr \<Rightarrow> 'a call list \<Rightarrow> 'a heap \<Rightarrow> int" where
  "net T l [] h = 0"
| "net T l (c # cs) h =
     (case exec T c h of
        Some (Inr (u, h')) \<Rightarrow> delta l c + net T l cs h'
      | Some (Inl (Thrown h')) \<Rightarrow> net T l cs h'
      | _ \<Rightarrow> 0)"

text \<open>Memories of example runs, used to instantiate the theorems.\<close>

definition h_run :: "nat heap" where
  "h_run = \<lparr>mem = [Some (ListObj \<lparr>node_value = 0, next_node = Some 4\<rparr> 2), None, None,
                   Some (NodeObj \<lparr>node_value = 2, next_node = None\<rparr>),
                   Some (NodeObj \<lparr>node_value = 7, next_node = Some 3\<rparr>)]\<rparr>"

definition h_run2 :: "nat heap" where
  "h_run2 = \<lparr>mem = [Some (ListObj \<lparr>node_value = 0, next_node = Some 3\<rparr> 1), None, None,
                    Some (NodeObj \<lparr>node_value = 2, next_node = None\<rparr>), None, None]\<rparr>"

definition h_copy :: "nat heap" where
  "h_copy = \<lparr>mem = [Some (ListObj \<lparr>node_value = 0, next_node = Some 2\<rparr> 1), None,
                    Some (NodeObj \<lparr>node_value = 1, next_node = None\<rparr>),
                    Some (ListObj \<lparr>node_value = 0, next_node = Some 5\<rparr> 2), None,
                    Some (NodeObj \<lparr>node_value = 1, next_node = Some 6\<rparr>),
                    Some (NodeObj \<lparr>node_value = 2, next_node = None\<rparr>),
                    Some (ListObj \<lparr>node_value = 0, next_node = Some 9\<rparr> 2), None,
                    Some (NodeObj \<lparr>node_value = 1, next_node = Some 10\<rparr>),
                    Some (NodeObj \<lparr>node_value = 2, next_node = None\<rparr>)]\<rparr>"

definition h_copy2 :: "nat heap" where
  "h_copy2 = \<lparr>mem = [Some (ListObj \<lparr>node_value = 0, next_node = Some 2\<rparr> 1), None,
                     Some (NodeObj \<lparr>node_value = 1, next_node = None\<rparr>),
                     Some (ListObj \<lparr>node_value = 0, next_node = Some 5\<rparr> 2), None,
                     Some (NodeObj \<lparr>node_value = 1, next_node = Some 6\<rparr>),
                     Some (NodeObj \<lparr>node_value = 2, next_node = None\<rparr>),
                     Some (ListObj \<lparr>node_value = 0, next_node = None\<rparr> 0), None, None,
                     None, None]\<rparr>"

definition h_assigned :: "nat heap" where
  "h_assigned = \<lparr>mem = [Some (ListObj \<lparr>node_value = 0, next_node = Some 9\<rparr> 2), None,
                        None, Some (ListObj \<lparr>node_value = 0, next_node = Some 5\<rparr> 2),
                        None, Some (NodeObj \<lparr>node_value = 1, next_node = Some 6\<rparr>),
                        Some (NodeObj \<lparr>node_value = 2, next_node = None\<rparr>), None,
                        None, Some (NodeObj \<lparr>node_value = 1, next_node = Some 10\<rparr>),
                        Some (NodeObj \<lparr>node_value = 2, next_node = None\<rparr>)]\<rparr>"

section \<open>Reading memory after a write\<close>

lemma nodes_live: "nodes h a = Some n \<Longrightarrow> a < length (mem h)"
  by (simp add: nodes_def cell_def split: if_splits)

lemma size_m_live: "size_m h a = Some s \<Longrightarrow> a < length (mem h)"
  by (simp add: size_m_def cell_def split: if_splits)

lemma size_m_nodes: "size_m h a = Some s \<Longrightarrow> nodes h a \<noteq> None"
  by (simp add: size_m_def nodes_def split: option.splits object.splits)

lemma nodes_fresh [simp]: "nodes h (length (mem h)) = None"
  by (simp add: nodes_def cell_def)

lemma size_m_fresh [simp]: "size_m h (length (mem h)) = None"
  by (simp add: size_m_def cell_def)

lemma cell_live: "cell h a = Some c \<Longrightarrow> a < length (mem h)"
  by (simp add: cell_def split: if_splits)

lemma cell_fresh [simp]: "cell h (length (mem h)) = None"
  by (simp add: cell_def)

lemma cell_update:
  "cell (h\<lparr>mem := (mem h)[a := c]\<rparr>) b = (if b = a \<and> a < length (mem h) then c else cell h b)"
  by (simp add: cell_def)

lemma cell_append:
  "cell (h\<lparr>mem := mem h @ [c]\<rparr>) b = (if b = length (mem h) then c else cell h b)"
  by (simp add: cell_def nth_append)

lemma cell_store_node:
  "cell (store_node a n h) b =
     (if b = a then (case cell h a of None \<Rightarrow> None | Some (NodeObj m) \<Rightarrow> Some (NodeObj n)
                     | Some (ListObj m s) \<Rightarrow> Some (ListObj n s))
      else cell h b)"
  by (auto simp: store_node_def cell_update dest: cell_live split: option.split object.split)

lemma cell_store_size:
  "cell (store_size a s h) b =
     (if b = a then (case cell h a of None \<Rightarrow> None | Some (NodeObj m) \<Rightarrow> Some (NodeObj m)
                     | Some (ListObj m s0) \<Rightarrow> Some (ListObj m s))
      else cell h b)"
  by (auto simp: store_size_def cell_update dest: cell_live split: option.split object.split)

lemma nodes_store_node:
  "nodes (store_node a n h) = (if nodes h a = None then nodes h else (nodes h)(a \<mapsto> n))"
  by (rule ext) (simp add: nodes_def cell_store_node split: option.split object.split)

lemma size_m_store_node [simp]: "size_m (store_node a n h) = size_m h"
  by (rule ext) (simp add: size_m_def cell_store_node split: option.split object.split)

lemma length_store_node [simp]: "length (mem (store_node a n h)) = length (mem h)"
  by (simp add: store_node_def split: option.split object.split)

lemma nodes_store_size [simp]: "nodes (store_size a s h) = nodes h"
  by (rule ext) (simp add: nodes_def cell_store_size split: option.split object.split)

lemma size_m_store_size:
  "size_m (store_size a s h) = (if size_m h a = None then size_m h else (size_m h)(a \<mapsto> s))"
  by (rule ext) (simp add: size_m_def cell_store_size split: option.split object.split)

lemma length_store_size [simp]: "length (mem (store_size a s h)) = length (mem h)"
  by (simp add: store_size_def split: option.split object.split)

lemma nodes_delete_node [simp]: "nodes (delete_node a h) = (nodes h)(a := None)"
  by (rule ext) (auto simp: delete_node_def nodes_def cell_update dest: cell_live split: option.split)

lemma size_m_delete_node [simp]: "size_m (delete_node a h) = (size_m h)(a := None)"
  by (rule ext) (auto simp: delete_node_def size_m_def cell_update dest: cell_live split: option.split)

lemma length_delete_node [simp]: "length (mem (delete_node a h)) = length (mem h)"
  by (simp add: delete_node_def)

lemma release_list_delete: "release_list this h = delete_node this h"
  by (simp add: release_list_def delete_node_def)

lemma new_Node_throws: "copy_throws T v \<Longrightarrow> new_Node T v nxt h = Inl (Thrown h)"
  by (simp add: new_Node_def)

lemma new_Node_returns:
  assumes "\<not> copy_throws T v"
  obtains h' where "new_Node T v nxt h = Inr (length (mem h), h')"
    and "nodes h' = (nodes h)(length (mem h) \<mapsto> \<lparr>node_value = v, next_node = nxt\<rparr>)"
    and "size_m h' = size_m h"
    and "length (mem h') = Suc (length (mem h))"
proof
  let ?h = "h\<lparr>mem := mem h @ [Some (NodeObj \<lparr>node_value = v, next_node = nxt\<rparr>)]\<rparr>"
  show "new_Node T v nxt h = Inr (length (mem h), ?h)"
    using assms by (simp add: new_Node_def)
  show "nodes ?h = (nodes h)(length (mem h) \<mapsto> \<lparr>node_value = v, next_node = nxt\<rparr>)"
    by (rule ext) (simp add: nodes_def cell_append)
  show "size_m ?h = size_m h"
    by (rule ext) (simp add: size_m_def cell_append)
  show "length (mem ?h) = Suc (length (mem h))" by simp
qed

lemma alloc_list_returns:
  obtains h' where "alloc_list T h = (length (mem h), h')"
    and "nodes h' = (nodes h)(length (mem h) \<mapsto> \<lparr>node_value = default_ctor T, next_node = None\<rparr>)"
    and "size_m h' = (size_m h)(length (mem h) \<mapsto> 0)"
    and "length (mem h') = Suc (length (mem h))"
proof
  let ?h = "h\<lparr>mem := mem h @ [Some (ListObj \<lparr>node_value = default_ctor T, next_node = None\<rparr> 0)]\<rparr>"
  show "alloc_list T h = (length (mem h), ?h)"
    by (simp add: alloc_list_def)
  show "nodes ?h = (nodes h)(length (mem h) \<mapsto> \<lparr>node_value = default_ctor T, next_node = None\<rparr>)"
    by (rule ext) (simp add: nodes_def cell_append)
  show "size_m ?h = (size_m h)(length (mem h) \<mapsto> 0)"
    by (rule ext) (simp add: size_m_def cell_append)
  show "length (mem ?h) = Suc (length (mem h))" by simp
qed


section \<open>Chains\<close>

lemma chain_Cons:
  "chain m p (ax # axs) =
     (\<exists>n. p = Some (fst ax) \<and> m (fst ax) = Some n \<and> node_value n = snd ax \<and> chain m (next_node n) axs)"
  by (cases ax) (simp split: option.split)

lemma chain_None [simp]: "chain m None axs = (axs = [])"
  by (cases axs) auto

lemma chain_unique: "chain m p axs \<Longrightarrow> chain m p bxs \<Longrightarrow> axs = bxs"
proof (induction axs arbitrary: p bxs)
  case Nil
  then show ?case by simp
next
  case (Cons ax axs)
  from Cons.prems(1) obtain n where n: "p = Some (fst ax)" "m (fst ax) = Some n"
    "node_value n = snd ax" "chain m (next_node n) axs"
    by (auto simp: chain_Cons)
  from Cons.prems(2) n(1) obtain bx bxs' where b: "bxs = bx # bxs'"
    by (cases bxs) auto
  with Cons.prems(2) n have "fst bx = fst ax" "snd bx = snd ax" "chain m (next_node n) bxs'"
    by (auto simp: chain_Cons)
  with Cons.IH [OF n(4)] b show ?case
    by (simp add: prod_eq_iff)
qed

lemma chain_suffix: "chain m p (us @ vs) \<Longrightarrow> \<exists>q. chain m q vs"
  by (induction us arbitrary: p) (auto simp: chain_Cons)

lemma chain_looks_up: "chain m p axs \<Longrightarrow> (a, x) \<in> set axs \<Longrightarrow> \<exists>n. m a = Some n \<and> node_value n = x"
  by (induction axs arbitrary: p) (auto simp: chain_Cons)

lemma chain_first_not_later:
  assumes "chain m p (ax # axs)"
  shows "fst ax \<notin> fst ` set axs"
proof
  assume "fst ax \<in> fst ` set axs"
  then obtain y where "(fst ax, y) \<in> set axs" by auto
  then obtain us vs where split: "axs = us @ (fst ax, y) # vs"
    by (auto simp: in_set_conv_decomp)
  from assms have tail: "chain m (next_node (the (m (fst ax)))) axs" and p: "p = Some (fst ax)"
    by (auto simp: chain_Cons)
  from tail split obtain q where q: "chain m q ((fst ax, y) # vs)"
    using chain_suffix by blast
  then have "q = p" using p by simp
  with q have "chain m p ((fst ax, y) # vs)" by simp
  from chain_unique [OF this assms] have "length vs = length axs" by (metis list.inject)
  moreover from split have "length axs = Suc (length us + length vs)" by simp
  ultimately show False by arith
qed

lemma chain_distinct: "chain m p axs \<Longrightarrow> distinct (map fst axs)"
proof (induction axs arbitrary: p)
  case Nil
  then show ?case by simp
next
  case (Cons ax axs)
  from Cons.prems have "chain m (next_node (the (m (fst ax)))) axs"
    by (auto simp: chain_Cons)
  with Cons.IH have "distinct (map fst axs)" by blast
  with chain_first_not_later [OF Cons.prems] show ?case by simp
qed

lemma chain_cong: "(\<And>a. a \<in> fst ` set axs \<Longrightarrow> m' a = m a) \<Longrightarrow> chain m' p axs = chain m p axs"
  by (induction axs arbitrary: p) (auto simp: chain_Cons)

lemma list_chain_sentinel_notin:
  assumes "list_chain h this axs"
  shows "this \<notin> fst ` set axs"
proof -
  from assms obtain hn where "nodes h this = Some hn" "chain (nodes h) (next_node hn) axs"
    by (auto simp: list_chain_def split: option.splits)
  then have "chain (nodes h) (Some this) ((this, node_value hn) # axs)" by simp
  from chain_first_not_later [OF this] show ?thesis by simp
qed

lemma chain_insert:
  assumes "chain m p (pre @ (a, x) # post)" and "m a = Some n" and "m new = None"
  shows "chain (m(a \<mapsto> n\<lparr>next_node := Some new\<rparr>,
                  new \<mapsto> \<lparr>node_value = v, next_node = next_node n\<rparr>))
           p (pre @ (a, x) # (new, v) # post)"
  using assms
proof (induction pre arbitrary: p)
  case Nil
  let ?m = "m(a \<mapsto> n\<lparr>next_node := Some new\<rparr>, new \<mapsto> \<lparr>node_value = v, next_node = next_node n\<rparr>)"
  from Nil have p: "p = Some a" and x: "node_value n = x" and tl: "chain m (next_node n) post"
    by auto
  have "a \<notin> fst ` set post" using chain_first_not_later [of m p "(a, x)" post] Nil by simp
  moreover have "new \<notin> fst ` set post" using chain_looks_up [OF tl] Nil(3) by force
  ultimately have "chain ?m (next_node n) post = chain m (next_node n) post"
    by (intro chain_cong) auto
  with tl have tl': "chain ?m (next_node n) post" by simp
  have "a \<noteq> new" using Nil(2,3) by auto
  then have "?m a = Some (n\<lparr>next_node := Some new\<rparr>)"
    and "?m new = Some \<lparr>node_value = v, next_node = next_node n\<rparr>"
    by simp_all
  with tl' p x show ?case
    by (simp add: chain_Cons del: fun_upd_apply)
next
  case (Cons b pre)
  let ?m = "m(a \<mapsto> n\<lparr>next_node := Some new\<rparr>, new \<mapsto> \<lparr>node_value = v, next_node = next_node n\<rparr>)"
  from Cons.prems(1) obtain k where k: "p = Some (fst b)" "m (fst b) = Some k" "node_value k = snd b"
    "chain m (next_node k) (pre @ (a, x) # post)"
    by (auto simp: chain_Cons)
  have "fst b \<noteq> a" using chain_first_not_later [of m p b "pre @ (a, x) # post"] Cons.prems(1) by force
  moreover have "fst b \<noteq> new" using k(2) Cons.prems(3) by auto
  ultimately have "?m (fst b) = Some k" using k(2) by simp
  with Cons.IH [OF k(4) Cons.prems(2,3)] k show ?case
    by (simp add: chain_Cons del: fun_upd_apply)
qed

lemma chain_erase:
  assumes "chain m p (pre @ (a, x) # (t, y) # post)" and "m a = Some n" and "m t = Some tn"
  shows "chain ((m(a \<mapsto> n\<lparr>next_node := next_node tn\<rparr>))(t := None)) p (pre @ (a, x) # post)"
  using assms
proof (induction pre arbitrary: p)
  case Nil
  let ?m = "(m(a \<mapsto> n\<lparr>next_node := next_node tn\<rparr>))(t := None)"
  from Nil have p: "p = Some a" and x: "node_value n = x" and nt: "next_node n = Some t"
    and tl: "chain m (next_node tn) post"
    by auto
  have d: "distinct (map fst ((a, x) # (t, y) # post))" using chain_distinct [OF Nil(1)] by simp
  then have "chain ?m (next_node tn) post = chain m (next_node tn) post"
    by (intro chain_cong) auto
  with tl have tl': "chain ?m (next_node tn) post" by simp
  have "a \<noteq> t" using d by simp
  then have "?m a = Some (n\<lparr>next_node := next_node tn\<rparr>)" by simp
  with tl' p x show ?case
    by (simp add: chain_Cons del: fun_upd_apply)
next
  case (Cons b pre)
  let ?m = "(m(a \<mapsto> n\<lparr>next_node := next_node tn\<rparr>))(t := None)"
  from Cons.prems(1) obtain k where k: "p = Some (fst b)" "m (fst b) = Some k" "node_value k = snd b"
    "chain m (next_node k) (pre @ (a, x) # (t, y) # post)"
    by (auto simp: chain_Cons)
  have "distinct (map fst ((b # pre) @ (a, x) # (t, y) # post))"
    by (rule chain_distinct [OF Cons.prems(1)])
  then have "fst b \<noteq> a" "fst b \<noteq> t" by auto
  then have "?m (fst b) = Some k" using k(2) by simp
  with Cons.IH [OF k(4) Cons.prems(2,3)] k show ?case
    by (simp add: chain_Cons del: fun_upd_apply)
qed


section \<open>Effects of the splicing operations on memory\<close>

lemma InsertAfter_effect:
  assumes "nodes h p = Some pn" and "size_m h this = Some s" and "\<not> copy_throws T v"
  obtains h' where "InsertAfter T this (Some p) v h = Inr (Some (length (mem h)), h')"
    and "nodes h' = (nodes h)(p \<mapsto> pn\<lparr>next_node := Some (length (mem h))\<rparr>,
                              length (mem h) \<mapsto> \<lparr>node_value = v, next_node = next_node pn\<rparr>)"
    and "size_m h' = (size_m h)(this \<mapsto> s + 1)"
    and "length (mem h') = Suc (length (mem h))"
proof -
  obtain h1 where h1: "new_Node T v (next_node pn) h = Inr (length (mem h), h1)"
    "nodes h1 = (nodes h)(length (mem h) \<mapsto> \<lparr>node_value = v, next_node = next_node pn\<rparr>)"
    "size_m h1 = size_m h" "length (mem h1) = Suc (length (mem h))"
    using new_Node_returns [OF assms(3)] by metis
  let ?h2 = "store_node p (pn\<lparr>next_node := Some (length (mem h))\<rparr>) h1"
  let ?h' = "store_size this (s + 1) ?h2"
  have ne: "p \<noteq> length (mem h)" using nodes_live [OF assms(1)] by simp
  have "InsertAfter T this (Some p) v h = Inr (Some (length (mem h)), ?h')"
    using assms h1 by (simp add: InsertAfter_def Let_def)
  moreover have "nodes ?h' = (nodes h)(p \<mapsto> pn\<lparr>next_node := Some (length (mem h))\<rparr>,
                              length (mem h) \<mapsto> \<lparr>node_value = v, next_node = next_node pn\<rparr>)"
    using assms(1) h1(2) ne by (auto simp: nodes_store_node)
  moreover have "size_m ?h' = (size_m h)(this \<mapsto> s + 1)"
    using assms(2) h1(3) by (simp add: size_m_store_size)
  moreover have "length (mem ?h') = Suc (length (mem h))"
    using h1(4) by simp
  ultimately show ?thesis using that by blast
qed

lemma InsertAfter_throws:
  assumes "nodes h p = Some pn" and "copy_throws T v"
  shows "InsertAfter T this (Some p) v h = Inl (Thrown h)"
  using assms by (simp add: InsertAfter_def new_Node_throws)

lemma EraseAfter_effect:
  assumes "nodes h p = Some pn" and "next_node pn = Some t" and "nodes h t = Some tn"
    and "t \<noteq> p" and "size_m h this = Some s" and "this \<noteq> t"
  obtains h' where "EraseAfter this (Some p) h = Inr (next_node tn, h')"
    and "nodes h' = ((nodes h)(p \<mapsto> pn\<lparr>next_node := next_node tn\<rparr>))(t := None)"
    and "size_m h' = ((size_m h)(t := None))(this \<mapsto> s - 1)"
    and "length (mem h') = length (mem h)"
proof -
  let ?h1 = "store_node p (pn\<lparr>next_node := next_node tn\<rparr>) h"
  let ?h2 = "delete_node t ?h1"
  let ?h3 = "store_size this (s - 1) ?h2"
  have n3: "nodes ?h3 = ((nodes h)(p \<mapsto> pn\<lparr>next_node := next_node tn\<rparr>))(t := None)"
    using assms(1) by (simp add: nodes_store_node)
  have s2: "size_m ?h2 this = Some s" using assms(5,6) by simp
  have s3: "size_m ?h3 = ((size_m h)(t := None))(this \<mapsto> s - 1)"
    using assms(5,6) by (simp add: size_m_store_size)
  have np: "nodes ?h1 p = Some (pn\<lparr>next_node := next_node tn\<rparr>)"
    using assms(1) by (simp add: nodes_store_node)
  have "p \<noteq> t" "t \<noteq> this" using assms(4,6) by auto
  then have "EraseAfter this (Some p) h = Inr (next_node tn, ?h3)"
    using assms np by (simp add: EraseAfter_def Let_def)
  moreover have "length (mem ?h3) = length (mem h)" by simp
  ultimately show ?thesis using that n3 s3 by blast
qed

lemma PushFront_InsertAfter:
  "PushFront T this v h =
     (case InsertAfter T this (before_begin this) v h of
        Inl e \<Rightarrow> Inl e
      | Inr (it, h') \<Rightarrow> Inr ((), h'))"
  by (simp add: PushFront_def InsertAfter_def before_begin_def Let_def
           split: option.split sum.split prod.split)

section \<open>Positions in a list\<close>

lemma rooted_split:
  "i \<le> length axs \<Longrightarrow> r # axs = take i (r # axs) @ ((r # axs) ! i) # drop i axs"
  using id_take_nth_drop [of i "r # axs"] by simp

lemma rooted_rejoin:
  "i \<le> length axs \<Longrightarrow> take i (r # axs) @ ((r # axs) ! i) # ys = r # take i axs @ ys"
  by (cases i) (simp_all add: take_Suc_conv_app_nth)

lemma rooted_split_at:
  "i \<le> length axs \<Longrightarrow> (r # axs) ! i = e \<Longrightarrow> r # axs = take i (r # axs) @ e # drop i axs"
  using rooted_split [of i axs r] by metis

lemma rooted_rejoin_at:
  "i \<le> length axs \<Longrightarrow> (r # axs) ! i = e \<Longrightarrow> take i (r # axs) @ e # ys = r # take i axs @ ys"
  using rooted_rejoin [of i axs r ys] by metis

lemma rooted_fst: "i \<le> length axs \<Longrightarrow> fst (((r, d) # axs) ! i) = (r # map fst axs) ! i"
  by (cases i) simp_all

lemma list_chain_rooted:
  "list_chain h this axs =
     (\<exists>hn. nodes h this = Some hn \<and> chain (nodes h) (Some this) ((this, node_value hn) # axs))"
  by (auto simp: list_chain_def split: option.splits)

lemma rooted_list_chain:
  "chain (nodes h) (Some this) ((this, d) # axs) \<Longrightarrow> list_chain h this axs"
  by (auto simp: list_chain_def split: option.splits)


lemma chain_start:
  "chain m q axs \<Longrightarrow> q = (case axs of [] \<Rightarrow> None | ax # rest \<Rightarrow> Some (fst ax))"
  by (cases axs) (auto simp: chain_Cons)

lemma list_inv_size: "list_inv h this axs \<Longrightarrow> size_m h this = Some (of_nat (length axs))"
  by (simp add: list_inv_def)

lemma list_inv_chain: "list_inv h this axs \<Longrightarrow> list_chain h this axs"
  by (simp add: list_inv_def)

section \<open>InsertAfter and EraseAfter on a well-formed list\<close>

lemma InsertAfter_list:
  assumes inv: "list_inv h this axs" and i: "i \<le> length axs"
    and p: "p = (this # map fst axs) ! i" and nt: "\<not> copy_throws T v"
  obtains h' pn where "InsertAfter T this (Some p) v h = Inr (Some (length (mem h)), h')"
    and "list_inv h' this (take i axs @ (length (mem h), v) # drop i axs)"
    and "nodes h p = Some pn"
    and "nodes h' = (nodes h)(p \<mapsto> pn\<lparr>next_node := Some (length (mem h))\<rparr>,
                              length (mem h) \<mapsto> \<lparr>node_value = v, next_node = next_node pn\<rparr>)"
    and "size_m h' = (size_m h)(this \<mapsto> of_nat (length axs) + 1)"
    and "length (mem h') = Suc (length (mem h))"
proof -
  let ?new = "length (mem h)"
  from inv obtain hn where hn: "nodes h this = Some hn"
    and root: "chain (nodes h) (Some this) ((this, node_value hn) # axs)"
    by (auto simp: list_inv_def list_chain_rooted)
  let ?full = "(this, node_value hn) # axs"
  have "fst (?full ! i) = p"
    using rooted_fst [OF i, of this "node_value hn"] p by simp
  then obtain x where x: "?full ! i = (p, x)"
    by (cases "?full ! i") simp
  have "i < length ?full" using i by simp
  then have "?full ! i \<in> set ?full" by (rule nth_mem)
  then have "(p, x) \<in> set ?full" by (simp only: x)
  from chain_looks_up [OF root this]
  obtain pn where pn: "nodes h p = Some pn" "node_value pn = x"
    by blast
  have root': "chain (nodes h) (Some this) (take i ?full @ (p, x) # drop i axs)"
    by (subst rooted_split_at [OF i x, symmetric]) (rule root)
  have len: "length (take i axs @ (?new, v) # drop i axs) = Suc (length axs)"
    using i by simp
  show ?thesis
  proof (rule InsertAfter_effect [OF pn(1) list_inv_size [OF inv] nt])
    fix h'
    assume r: "InsertAfter T this (Some p) v h = Inr (Some ?new, h')"
      and n: "nodes h' = (nodes h)(p \<mapsto> pn\<lparr>next_node := Some ?new\<rparr>,
                          ?new \<mapsto> \<lparr>node_value = v, next_node = next_node pn\<rparr>)"
      and sz: "size_m h' = (size_m h)(this \<mapsto> of_nat (length axs) + 1)"
      and l: "length (mem h') = Suc ?new"
    from chain_insert [OF root' pn(1) nodes_fresh]
    have "chain (nodes h') (Some this) (take i ?full @ (p, x) # (?new, v) # drop i axs)"
      by (simp only: n)
    then have "chain (nodes h') (Some this)
                 ((this, node_value hn) # take i axs @ (?new, v) # drop i axs)"
      by (simp only: rooted_rejoin_at [OF i x])
    then have "list_chain h' this (take i axs @ (?new, v) # drop i axs)"
      by (rule rooted_list_chain)
    moreover have "size_m h' this = Some (of_nat (length (take i axs @ (?new, v) # drop i axs)))"
      by (simp only: len sz) simp
    ultimately have "list_inv h' this (take i axs @ (?new, v) # drop i axs)"
      by (simp only: list_inv_def simp_thms)
    then show ?thesis by (rule that [OF r _ pn(1) n sz l])
  qed
qed

lemma EraseAfter_list:
  assumes inv: "list_inv h this axs" and i: "i < length axs"
    and p: "p = (this # map fst axs) ! i"
  obtains h' pn tn where
    "EraseAfter this (Some p) h =
       Inr (if Suc i < length axs then Some (fst (axs ! Suc i)) else None, h')"
    and "list_inv h' this (take i axs @ drop (Suc i) axs)"
    and "nodes h p = Some pn" and "nodes h (fst (axs ! i)) = Some tn"
    and "nodes h' = ((nodes h)(p \<mapsto> pn\<lparr>next_node := next_node tn\<rparr>))(fst (axs ! i) := None)"
    and "size_m h' = ((size_m h)(fst (axs ! i) := None))(this \<mapsto> of_nat (length axs) - 1)"
    and "length (mem h') = length (mem h)"
proof -
  from inv obtain hn where hn: "nodes h this = Some hn"
    and root: "chain (nodes h) (Some this) ((this, node_value hn) # axs)"
    by (auto simp: list_inv_def list_chain_rooted)
  let ?full = "(this, node_value hn) # axs"
  let ?post = "drop (Suc i) axs"
  from i have i': "i \<le> length axs" by simp
  have "fst (?full ! i) = p"
    using rooted_fst [OF i', of this "node_value hn"] p by simp
  then obtain x where x: "?full ! i = (p, x)"
    by (cases "?full ! i") simp
  obtain t y where ty: "axs ! i = (t, y)" by (cases "axs ! i")
  then have t: "fst (axs ! i) = t" by simp
  have e1: "?full = take i ?full @ (p, x) # drop i axs"
    by (rule rooted_split_at [OF i' x])
  have e2: "drop i axs = (t, y) # ?post"
    using Cons_nth_drop_Suc [OF i] by (simp only: ty)
  have root': "chain (nodes h) (Some this) (take i ?full @ (p, x) # (t, y) # ?post)"
    using root e1 e2 by metis
  from chain_suffix [OF this] obtain q where q: "chain (nodes h) q ((p, x) # (t, y) # ?post)"
    by blast
  then obtain pn tn where pn: "nodes h p = Some pn" "next_node pn = Some t"
    and tn: "nodes h t = Some tn" "chain (nodes h) (next_node tn) ?post"
    by (auto simp: chain_Cons)
  have tp: "t \<noteq> p" using chain_first_not_later [OF q] by auto
  have "axs ! i \<in> set axs" using i by (rule nth_mem)
  then have "t \<in> fst ` set axs" using t by (metis image_eqI)
  then have tt: "this \<noteq> t" using list_chain_sentinel_notin [OF list_inv_chain [OF inv]] by auto
  have nxt: "next_node tn = (if Suc i < length axs then Some (fst (axs ! Suc i)) else None)"
  proof (cases "Suc i < length axs")
    case True
    then have "axs ! Suc i # drop (Suc (Suc i)) axs = ?post"
      by (rule Cons_nth_drop_Suc)
    with chain_start [OF tn(2)] True show ?thesis by (metis list.simps(5))
  next
    case False
    then have "?post = []" by simp
    with chain_start [OF tn(2)] False show ?thesis by simp
  qed
  have len: "length (take i axs @ ?post) = length axs - 1" using i by simp
  have dec: "(of_nat (length axs - 1) :: size_t) = of_nat (length axs) - 1"
    using i by (cases "length axs") simp_all
  show ?thesis
  proof (rule EraseAfter_effect [OF pn(1,2) tn(1) tp list_inv_size [OF inv] tt])
    fix h'
    assume r: "EraseAfter this (Some p) h = Inr (next_node tn, h')"
      and n: "nodes h' = ((nodes h)(p \<mapsto> pn\<lparr>next_node := next_node tn\<rparr>))(t := None)"
      and sz: "size_m h' = ((size_m h)(t := None))(this \<mapsto> of_nat (length axs) - 1)"
      and l: "length (mem h') = length (mem h)"
    from chain_erase [OF root' pn(1) tn(1)]
    have "chain (nodes h') (Some this) (take i ?full @ (p, x) # ?post)"
      by (simp only: n)
    then have "chain (nodes h') (Some this) ((this, node_value hn) # take i axs @ ?post)"
      by (simp only: rooted_rejoin_at [OF i' x])
    then have lc: "list_chain h' this (take i axs @ ?post)"
      by (rule rooted_list_chain)
    have "size_m h' this = Some (of_nat (length (take i axs @ ?post)))"
      by (simp only: len dec sz) simp
    with lc have li: "list_inv h' this (take i axs @ ?post)"
      by (simp only: list_inv_def simp_thms)
    show ?thesis
    proof (rule that [of h' pn tn])
      show "EraseAfter this (Some p) h =
         Inr (if Suc i < length axs then Some (fst (axs ! Suc i)) else None, h')"
        using r by (simp only: nxt)
      show "list_inv h' this (take i axs @ ?post)" by (rule li)
      show "nodes h p = Some pn" by (rule pn(1))
      show "nodes h (fst (axs ! i)) = Some tn" using tn(1) by (simp only: t)
      show "nodes h' = ((nodes h)(p \<mapsto> pn\<lparr>next_node := next_node tn\<rparr>))(fst (axs ! i) := None)"
        using n by (simp only: t)
      show "size_m h' = ((size_m h)(fst (axs ! i) := None))(this \<mapsto> of_nat (length axs) - 1)"
        using sz by (simp only: t)
      show "length (mem h') = length (mem h)" by (rule l)
    qed
  qed
qed


lemma chain_live: "chain m p axs \<Longrightarrow> a \<in> fst ` set axs \<Longrightarrow> m a \<noteq> None"
  by (induction axs arbitrary: p) (auto simp: chain_Cons)

lemma list_chain_live:
  "list_chain h this axs \<Longrightarrow> a \<in> insert this (fst ` set axs) \<Longrightarrow> nodes h a \<noteq> None"
  using chain_live [of "nodes h" _ axs a]
  by (auto simp: list_chain_def split: option.splits)

lemma list_chain_below:
  "list_chain h this axs \<Longrightarrow> a \<in> insert this (fst ` set axs) \<Longrightarrow> a < length (mem h)"
  using list_chain_live [of h this axs a] nodes_live [of h a] by auto

section \<open>Traversal\<close>

lemma traverse_from_chain:
  "chain (nodes h) p axs \<Longrightarrow> traverse_from h p = Some (Inr (map snd axs))"
proof (induction axs arbitrary: p)
  case Nil
  then show ?case
    by (subst traverse_from.simps) (simp add: iter_neq_def list_end_def)
next
  case (Cons ax axs)
  then obtain n where n: "p = Some (fst ax)" "nodes h (fst ax) = Some n" "node_value n = snd ax"
    "chain (nodes h) (next_node n) axs"
    by (auto simp: chain_Cons)
  from Cons.IH [OF n(4)] n(1,2,3) show ?case
    by (subst traverse_from.simps)
       (simp add: iter_neq_def list_end_def iter_deref_def iter_incr_def)
qed

lemma traverse_list:
  "list_chain h this axs \<Longrightarrow> traverse h this = Some (Inr (map snd axs))"
  by (auto simp: traverse_def list_begin_def list_chain_def traverse_from_chain split: option.splits)

lemma GetSize_list: "list_inv h this axs \<Longrightarrow> GetSize h this = Inr (of_nat (length axs))"
  by (simp add: GetSize_def list_inv_def)

lemma h_two_inv: "list_inv h_two 0 [(1, 10), (2, 20)]"
  by (simp add: list_inv_def list_chain_def nodes_def size_m_def cell_def h_two_def)

section \<open>The claims about InsertAfter\<close>

text \<open>
  Claim C5. On a well-formed list \<open>this\<close> with chain \<open>axs\<close>, let \<open>pos\<close> reference the
  node at index \<open>i\<close> of the chain with the sentinel in front (index 0 is the sentinel,
  the position \<^verbatim>\<open>before_begin()\<close>). When the copy of \<open>v\<close> does not throw,
  \<^verbatim>\<open>InsertAfter(pos, v)\<close> returns an iterator to a node that was not in the list before and
  holds \<open>v\<close>; the chain is the old one with that node right after the referenced
  node, so traversal gives the old elements in their order with \<open>v\<close> after the first
  \<open>i\<close> of them (in front of all of them for \<^verbatim>\<open>before_begin()\<close>); the counter is one
  more and again the number of nodes; no node but the referenced one and the new one
  changes, the referenced one keeps its value, and no other list's counter changes.
\<close>

theorem InsertAfter_splices:
  assumes "list_inv h this axs" and "i \<le> length axs"
    and "pos = Some ((this # map fst axs) ! i)" and "\<not> copy_throws T v"
  shows "\<exists>h'. InsertAfter T this pos v h = Inr (Some (length (mem h)), h')
           \<and> list_inv h' this (take i axs @ (length (mem h), v) # drop i axs)
           \<and> traverse h' this = Some (Inr (map snd (take i axs) @ v # map snd (drop i axs)))
           \<and> GetSize h' this = Inr (of_nat (length axs) + 1)
           \<and> iter_deref h' (Some (length (mem h))) = Inr v
           \<and> length (mem h) \<notin> insert this (fst ` set axs)
           \<and> (\<forall>a. a \<noteq> (this # map fst axs) ! i \<and> a \<noteq> length (mem h) \<longrightarrow> nodes h' a = nodes h a)
           \<and> map_option node_value (nodes h' ((this # map fst axs) ! i))
               = map_option node_value (nodes h ((this # map fst axs) ! i))
           \<and> (\<forall>a. a \<noteq> this \<longrightarrow> size_m h' a = size_m h a)"
proof (rule InsertAfter_list [OF assms(1,2) refl assms(4)])
  let ?p = "(this # map fst axs) ! i" and ?new = "length (mem h)"
  fix h' pn
  assume r: "InsertAfter T this (Some ?p) v h = Inr (Some ?new, h')"
    and inv': "list_inv h' this (take i axs @ (?new, v) # drop i axs)"
    and pn: "nodes h ?p = Some pn"
    and n: "nodes h' = (nodes h)(?p \<mapsto> pn\<lparr>next_node := Some ?new\<rparr>,
                              ?new \<mapsto> \<lparr>node_value = v, next_node = next_node pn\<rparr>)"
    and sz: "size_m h' = (size_m h)(this \<mapsto> of_nat (length axs) + 1)"
  have "traverse h' this = Some (Inr (map snd (take i axs) @ v # map snd (drop i axs)))"
    using traverse_list [OF list_inv_chain [OF inv']] by simp
  moreover have "GetSize h' this = Inr (of_nat (length axs) + 1)"
    by (simp add: GetSize_def sz)
  moreover have "iter_deref h' (Some ?new) = Inr v"
    by (simp add: iter_deref_def n)
  moreover have "?new \<notin> insert this (fst ` set axs)"
    using list_chain_below [OF list_inv_chain [OF assms(1)], of "length (mem h)"] by blast
  moreover have "\<forall>a. a \<noteq> ?p \<and> a \<noteq> ?new \<longrightarrow> nodes h' a = nodes h a"
    by (simp add: n)
  moreover have "map_option node_value (nodes h' ?p) = map_option node_value (nodes h ?p)"
    using pn nodes_live [OF pn] by (simp add: n)
  moreover have "\<forall>a. a \<noteq> this \<longrightarrow> size_m h' a = size_m h a"
    by (simp add: sz)
  ultimately show ?thesis using r inv' assms(3) by simp
qed

theorem InsertAfter_splices_witness:
  "list_inv h_two 0 [(1, 10), (2, 20)] \<and> (1::nat) \<le> length [(1::nat, 10::nat), (2, 20)]
   \<and> \<not> copy_throws T_nat 15
   \<and> (\<exists>h'. InsertAfter T_nat 0 (Some 1) 15 h_two = Inr (Some 3, h')
          \<and> traverse h' 0 = Some (Inr [10, 15, 20])
          \<and> GetSize h' 0 = Inr 3)"
proof -
  have nt: "\<not> copy_throws T_nat 15" by (simp add: T_nat_def)
  have len: "length (mem h_two) = 3" by (simp add: h_two_def)
  from InsertAfter_splices [OF h_two_inv _ _ nt, of 1 "Some 1"] len
  have "\<exists>h'. InsertAfter T_nat 0 (Some 1) 15 h_two = Inr (Some 3, h')
          \<and> traverse h' 0 = Some (Inr [10, 15, 20])
          \<and> GetSize h' 0 = Inr 3"
    by simp blast
  with h_two_inv nt show ?thesis by simp
qed

section \<open>The claims about EraseAfter and PushFront\<close>

text \<open>
  Claim C6. On a well-formed list \<open>this\<close> with chain \<open>axs\<close>, let \<open>pos\<close> reference the
  node at index \<open>i\<close> of the chain with the sentinel in front, and let that node have a
  successor (\<open>i < length axs\<close>). \<^verbatim>\<open>EraseAfter(pos)\<close> returns, the successor is no longer a
  live node, the chain is the old one without it, the counter is one less and again the
  number of nodes, no node but the referenced one and the removed one changes, and the
  iterator returned is the link of the referenced node: the node that followed the
  removed one, or the end position. For \<^verbatim>\<open>before_begin()\<close> the first element goes, and a
  list of one element becomes empty.
\<close>

theorem EraseAfter_removes:
  assumes "list_inv h this axs" and "i < length axs"
    and "pos = Some ((this # map fst axs) ! i)"
  shows "\<exists>h'. EraseAfter this pos h =
                 Inr (if Suc i < length axs then Some (fst (axs ! Suc i)) else None, h')
           \<and> list_inv h' this (take i axs @ drop (Suc i) axs)
           \<and> traverse h' this = Some (Inr (map snd (take i axs) @ map snd (drop (Suc i) axs)))
           \<and> GetSize h' this = Inr (of_nat (length axs) - 1)
           \<and> nodes h' (fst (axs ! i)) = None
           \<and> iter_incr h' pos = Inr (if Suc i < length axs then Some (fst (axs ! Suc i)) else None)
           \<and> (\<forall>a. a \<noteq> (this # map fst axs) ! i \<and> a \<noteq> fst (axs ! i) \<longrightarrow> nodes h' a = nodes h a)
           \<and> map_option node_value (nodes h' ((this # map fst axs) ! i))
               = map_option node_value (nodes h ((this # map fst axs) ! i))
           \<and> (\<forall>a. a \<noteq> this \<and> a \<noteq> fst (axs ! i) \<longrightarrow> size_m h' a = size_m h a)
           \<and> (i = 0 \<longrightarrow> traverse h' this = Some (Inr (tl (map snd axs))))
           \<and> (length axs = 1 \<longrightarrow> list_inv h' this [] \<and> IsEmpty h' this = Inr True)"
proof (rule EraseAfter_list [OF assms(1,2) refl])
  let ?p = "(this # map fst axs) ! i" and ?t = "fst (axs ! i)"
  let ?ret = "if Suc i < length axs then Some (fst (axs ! Suc i)) else None"
  fix h' pn tn
  assume r: "EraseAfter this (Some ?p) h = Inr (?ret, h')"
    and inv': "list_inv h' this (take i axs @ drop (Suc i) axs)"
    and pn: "nodes h ?p = Some pn" and tn: "nodes h ?t = Some tn"
    and n: "nodes h' = ((nodes h)(?p \<mapsto> pn\<lparr>next_node := next_node tn\<rparr>))(?t := None)"
    and sz: "size_m h' = ((size_m h)(?t := None))(this \<mapsto> of_nat (length axs) - 1)"
  have "axs ! i \<in> set axs" using assms(2) by (rule nth_mem)
  then have tin: "?t \<in> fst ` set axs" by (rule imageI)
  then have tt: "this \<noteq> ?t"
    using list_chain_sentinel_notin [OF list_inv_chain [OF assms(1)]] by auto
  have tp: "?p \<noteq> ?t"
  proof (cases i)
    case 0
    then show ?thesis using tt by simp
  next
    case (Suc j)
    have d: "distinct (map fst axs)"
      using assms(1) by (auto simp: list_inv_def list_chain_def dest: chain_distinct split: option.splits)
    have "j < length (map fst axs)" "i < length (map fst axs)" using Suc assms(2) by simp_all
    with d have "(map fst axs ! j = map fst axs ! i) = (j = i)" by (rule nth_eq_iff_index_eq)
    then have "map fst axs ! j \<noteq> map fst axs ! i" using Suc by simp
    moreover have "?p = map fst axs ! j" using Suc by simp
    moreover have "?t = map fst axs ! i" using assms(2) by simp
    ultimately show ?thesis by metis
  qed
  have ret: "iter_incr h' (Some ?p) = Inr ?ret"
    using r pn by (auto simp: EraseAfter_def Let_def iter_incr_def split: option.splits)
  have "traverse h' this = Some (Inr (map snd (take i axs) @ map snd (drop (Suc i) axs)))"
    using traverse_list [OF list_inv_chain [OF inv']] by simp
  moreover have "GetSize h' this = Inr (of_nat (length axs) - 1)"
    using tt by (simp add: GetSize_def sz)
  moreover have "nodes h' ?t = None" by (simp add: n)
  moreover have "\<forall>a. a \<noteq> ?p \<and> a \<noteq> ?t \<longrightarrow> nodes h' a = nodes h a"
    by (simp add: n)
  moreover have "map_option node_value (nodes h' ?p) = map_option node_value (nodes h ?p)"
    using pn tp by (simp add: n)
  moreover have "\<forall>a. a \<noteq> this \<and> a \<noteq> ?t \<longrightarrow> size_m h' a = size_m h a"
    by (simp add: sz)
  moreover have "i = 0 \<longrightarrow> traverse h' this = Some (Inr (tl (map snd axs)))"
    using traverse_list [OF list_inv_chain [OF inv']] by (auto simp: drop_Suc map_tl)
  moreover have "length axs = 1 \<longrightarrow> list_inv h' this [] \<and> IsEmpty h' this = Inr True"
    using inv' assms(2) by (auto simp: IsEmpty_def list_inv_def)
  ultimately show ?thesis using r inv' ret assms(3) by simp
qed

theorem EraseAfter_removes_witness:
  "list_inv h_two 0 [(1, 10), (2, 20)] \<and> (0::nat) < length [(1::nat, 10::nat), (2, 20)]
   \<and> (\<exists>h'. EraseAfter 0 (Some 0) h_two = Inr (Some 2, h')
          \<and> traverse h' 0 = Some (Inr [20])
          \<and> GetSize h' 0 = Inr 1
          \<and> nodes h' 1 = None)"
proof -
  from EraseAfter_removes [OF h_two_inv, of 0 "Some 0"]
  have "\<exists>h'. EraseAfter 0 (Some 0) h_two = Inr (Some 2, h')
          \<and> traverse h' 0 = Some (Inr [20])
          \<and> GetSize h' 0 = Inr 1
          \<and> nodes h' 1 = None"
    by simp blast
  with h_two_inv show ?thesis by simp
qed

text \<open>
  Claim C10. When the copy of the value throws, \<^verbatim>\<open>InsertAfter\<close> at a position of a
  well-formed list leaves through the exception with the memory it was called in:
  the node is allocated and constructed before any link or the counter is written.
\<close>

theorem InsertAfter_throw_is_atomic:
  assumes "list_inv h this axs" and "i \<le> length axs"
    and "pos = Some ((this # map fst axs) ! i)" and "copy_throws T v"
  shows "InsertAfter T this pos v h = Inl (Thrown h)"
proof -
  have "i < length (this # map fst axs)" using assms(2) by simp
  then have "(this # map fst axs) ! i \<in> set (this # map fst axs)" by (rule nth_mem)
  then have "(this # map fst axs) ! i \<in> insert this (fst ` set axs)" by simp
  from list_chain_live [OF list_inv_chain [OF assms(1)] this]
  obtain pn where "nodes h ((this # map fst axs) ! i) = Some pn" by blast
  from InsertAfter_throws [OF this assms(4)] assms(3) show ?thesis by simp
qed

theorem InsertAfter_throw_is_atomic_witness:
  "list_inv h_two 0 [(1, 10), (2, 20)] \<and> (2::nat) \<le> length [(1::nat, 10::nat), (2, 20)]
   \<and> copy_throws T_nat 13
   \<and> InsertAfter T_nat 0 (Some 2) 13 h_two = Inl (Thrown h_two)"
proof -
  have th: "copy_throws T_nat 13" by (simp add: T_nat_def)
  from InsertAfter_throw_is_atomic [OF h_two_inv _ _ th, of 2 "Some 2"]
  have "InsertAfter T_nat 0 (Some 2) 13 h_two = Inl (Thrown h_two)" by simp
  with h_two_inv th show ?thesis by simp
qed

lemma PushFront_list:
  assumes "list_inv h this axs" and "\<not> copy_throws T v"
  obtains h' where "PushFront T this v h = Inr ((), h')"
    and "list_inv h' this ((length (mem h), v) # axs)"
proof (rule InsertAfter_list [OF assms(1) _ refl assms(2), of 0])
  show "0 \<le> length axs" by simp
next
  fix h' pn
  assume "InsertAfter T this (Some ((this # map fst axs) ! 0)) v h = Inr (Some (length (mem h)), h')"
    and "list_inv h' this (take 0 axs @ (length (mem h), v) # drop 0 axs)"
  then show ?thesis using that by (simp add: PushFront_InsertAfter before_begin_def)
qed

lemma PushFront_each_list:
  assumes "list_inv h this axs" and "\<forall>v\<in>set vs. \<not> copy_throws T v"
  shows "\<exists>h' bxs. PushFront_each T this vs h = Inr ((), h') \<and> list_inv h' this (bxs @ axs)
           \<and> map snd bxs = rev vs"
  using assms
proof (induction vs arbitrary: h axs)
  case Nil
  then show ?case by simp
next
  case (Cons v vs)
  from Cons.prems(2) have nt: "\<not> copy_throws T v" and rest: "\<forall>v\<in>set vs. \<not> copy_throws T v"
    by simp_all
  from PushFront_list [OF Cons.prems(1) nt]
  obtain h1 where h1: "PushFront T this v h = Inr ((), h1)"
    "list_inv h1 this ((length (mem h), v) # axs)" by blast
  from Cons.IH [OF h1(2) rest]
  obtain h' bxs where r: "PushFront_each T this vs h1 = Inr ((), h')"
    "list_inv h' this (bxs @ (length (mem h), v) # axs)" "map snd bxs = rev vs" by blast
  have "list_inv h' this ((bxs @ [(length (mem h), v)]) @ axs)" using r(2) by simp
  moreover have "map snd (bxs @ [(length (mem h), v)]) = rev (v # vs)" using r(3) by simp
  moreover have "PushFront_each T this (v # vs) h = Inr ((), h')" using h1(1) r(1) by simp
  ultimately show ?case by blast
qed

text \<open>
  Claim C7. On a well-formed list every \<^verbatim>\<open>PushFront\<close> whose copy does not throw returns
  and makes its value the first element, in a node that was not in the list, with the
  counter one more. Pushing the values \<open>vs\<close> one after the other puts them in front
  of the old elements in reverse order; from an empty list, traversal gives \<open>rev vs\<close>
  and the size is their number.
\<close>

theorem PushFront_reverses:
  assumes "list_inv h this axs" and "\<forall>v\<in>set vs. \<not> copy_throws T v"
  shows "(\<exists>h'. PushFront_each T this vs h = Inr ((), h')
            \<and> traverse h' this = Some (Inr (rev vs @ map snd axs))
            \<and> GetSize h' this = Inr (of_nat (length axs) + of_nat (length vs))
            \<and> (\<exists>bxs. list_inv h' this (bxs @ axs) \<and> map snd bxs = rev vs)
            \<and> (axs = [] \<longrightarrow> traverse h' this = Some (Inr (rev vs))
                           \<and> GetSize h' this = Inr (of_nat (length vs))))
       \<and> (\<forall>v. \<not> copy_throws T v \<longrightarrow>
             (\<exists>h'. PushFront T this v h = Inr ((), h')
                \<and> list_inv h' this ((length (mem h), v) # axs)
                \<and> traverse h' this = Some (Inr (v # map snd axs))
                \<and> GetSize h' this = Inr (of_nat (length axs) + 1)))"
proof (intro conjI allI impI)
  from PushFront_each_list [OF assms]
  obtain h' bxs where r: "PushFront_each T this vs h = Inr ((), h')"
    "list_inv h' this (bxs @ axs)" "map snd bxs = rev vs" by blast
  have len: "length bxs = length vs" using r(3) by (metis length_map length_rev)
  have "traverse h' this = Some (Inr (rev vs @ map snd axs))"
    using traverse_list [OF list_inv_chain [OF r(2)]] r(3) by simp
  moreover have "GetSize h' this = Inr (of_nat (length axs) + of_nat (length vs))"
    using GetSize_list [OF r(2)] len by (simp add: add.commute)
  ultimately show "\<exists>h'. PushFront_each T this vs h = Inr ((), h')
            \<and> traverse h' this = Some (Inr (rev vs @ map snd axs))
            \<and> GetSize h' this = Inr (of_nat (length axs) + of_nat (length vs))
            \<and> (\<exists>bxs. list_inv h' this (bxs @ axs) \<and> map snd bxs = rev vs)
            \<and> (axs = [] \<longrightarrow> traverse h' this = Some (Inr (rev vs))
                           \<and> GetSize h' this = Inr (of_nat (length vs)))"
    using r by auto
next
  fix v assume nt: "\<not> copy_throws T v"
  from PushFront_list [OF assms(1) nt]
  obtain h' where r: "PushFront T this v h = Inr ((), h')"
    "list_inv h' this ((length (mem h), v) # axs)" by blast
  have "traverse h' this = Some (Inr (v # map snd axs))"
    using traverse_list [OF list_inv_chain [OF r(2)]] by simp
  moreover have "GetSize h' this = Inr (of_nat (length axs) + 1)"
    using GetSize_list [OF r(2)] by simp
  ultimately show "\<exists>h'. PushFront T this v h = Inr ((), h')
                \<and> list_inv h' this ((length (mem h), v) # axs)
                \<and> traverse h' this = Some (Inr (v # map snd axs))
                \<and> GetSize h' this = Inr (of_nat (length axs) + 1)"
    using r by blast
qed

lemma h_empty_inv: "list_inv h_empty 0 []"
  by (simp add: h_empty_def SingleLinkedList_default_def alloc_list_def empty_heap_def
        list_inv_def list_chain_def nodes_def size_m_def cell_def)

theorem PushFront_reverses_witness:
  "list_inv h_empty 0 []
   \<and> \<not> copy_throws T_nat 1 \<and> \<not> copy_throws T_nat 2 \<and> \<not> copy_throws T_nat 3
   \<and> (\<exists>h'. PushFront_each T_nat 0 [1, 2, 3] h_empty = Inr ((), h')
          \<and> traverse h' 0 = Some (Inr [3, 2, 1])
          \<and> GetSize h' 0 = Inr 3)"
proof -
  have nt: "\<forall>v\<in>set [1, 2, 3]. \<not> copy_throws T_nat v" by (simp add: T_nat_def)
  from PushFront_reverses [OF h_empty_inv nt]
  have "\<exists>h'. PushFront_each T_nat 0 [1, 2, 3] h_empty = Inr ((), h')
          \<and> traverse h' 0 = Some (Inr [3, 2, 1])
          \<and> GetSize h' 0 = Inr 3"
    by simp blast
  with h_empty_inv nt show ?thesis by simp
qed

section \<open>Comparison of lists\<close>

lemma std_equal_chain:
  assumes "chain (nodes h) p axs" and "chain (nodes h) q bxs" and "length axs \<le> length bxs"
  shows "std_equal h p list_end q = Some (Inr (map snd axs = take (length axs) (map snd bxs)))"
  using assms
proof (induction axs arbitrary: p q bxs)
  case Nil
  then show ?case
    by (subst std_equal.simps) (simp add: iter_neq_def list_end_def)
next
  case (Cons ax axs)
  from Cons.prems(3) obtain bx bxs' where b: "bxs = bx # bxs'" by (cases bxs) auto
  from Cons.prems(1) obtain n where n: "p = Some (fst ax)" "nodes h (fst ax) = Some n"
    "node_value n = snd ax" "chain (nodes h) (next_node n) axs"
    by (auto simp: chain_Cons)
  from Cons.prems(2) b obtain k where k: "q = Some (fst bx)" "nodes h (fst bx) = Some k"
    "node_value k = snd bx" "chain (nodes h) (next_node k) bxs'"
    by (auto simp: chain_Cons)
  have le: "length axs \<le> length bxs'" using Cons.prems(3) b by simp
  from Cons.IH [OF n(4) k(4) le] n(1,2,3) k(1,2,3) b show ?case
    by (subst std_equal.simps)
       (simp add: iter_neq_def list_end_def iter_deref_def iter_incr_def)
qed

lemma std_lexicographical_compare_chain:
  assumes "chain (nodes h) p axs" and "chain (nodes h) q bxs"
  shows "std_lexicographical_compare h p list_end q list_end
           = Some (Inr (ord_class.lexordp (map snd axs) (map snd bxs)))"
  using assms
proof (induction axs arbitrary: p q bxs)
  case Nil
  then show ?case
    by (subst std_lexicographical_compare.simps)
       (cases bxs; auto simp: iter_neq_def iter_eq_def list_end_def chain_Cons)
next
  case (Cons ax axs)
  from Cons.prems(1) obtain n where n: "p = Some (fst ax)" "nodes h (fst ax) = Some n"
    "node_value n = snd ax" "chain (nodes h) (next_node n) axs"
    by (auto simp: chain_Cons)
  show ?case
  proof (cases bxs)
    case Nil
    with Cons.prems(2) n(1) show ?thesis
      by (subst std_lexicographical_compare.simps)
         (simp add: iter_neq_def iter_eq_def list_end_def)
  next
    case (Cons bx bxs')
    with Cons.prems(2) obtain k where k: "q = Some (fst bx)" "nodes h (fst bx) = Some k"
      "node_value k = snd bx" "chain (nodes h) (next_node k) bxs'"
      by (auto simp: chain_Cons)
    from Cons.IH [OF n(4) k(4)] n(1,2,3) k(1,2,3) Cons show ?thesis
      by (subst std_lexicographical_compare.simps)
         (auto simp: iter_neq_def iter_eq_def list_end_def iter_deref_def iter_incr_def)
  qed
qed

lemma list_chain_begin:
  "list_chain h this axs \<Longrightarrow> \<exists>first. list_begin h this = Inr first \<and> chain (nodes h) first axs"
  by (auto simp: list_chain_def list_begin_def split: option.splits)

lemma operator_eq_list:
  assumes "list_chain h a axs" and "list_chain h b bxs" and "length axs \<le> length bxs"
  shows "operator_eq h a b = Some (Inr (map snd axs = take (length axs) (map snd bxs)))"
proof -
  from list_chain_begin [OF assms(1)] obtain p where p: "list_begin h a = Inr p"
    "chain (nodes h) p axs" by blast
  from list_chain_begin [OF assms(2)] obtain q where q: "list_begin h b = Inr q"
    "chain (nodes h) q bxs" by blast
  from std_equal_chain [OF p(2) q(2) assms(3)] p(1) q(1) show ?thesis
    by (simp add: operator_eq_def)
qed

lemma operator_lt_list:
  assumes "list_chain h a axs" and "list_chain h b bxs"
  shows "operator_lt h a b = Some (Inr (ord_class.lexordp (map snd axs) (map snd bxs)))"
proof -
  from list_chain_begin [OF assms(1)] obtain p where p: "list_begin h a = Inr p"
    "chain (nodes h) p axs" by blast
  from list_chain_begin [OF assms(2)] obtain q where q: "list_begin h b = Inr q"
    "chain (nodes h) q bxs" by blast
  from std_lexicographical_compare_chain [OF p(2) q(2)] p(1) q(1) show ?thesis
    by (simp add: operator_lt_def)
qed

lemma lexordp_last_differs:
  fixes x y :: "'a::order"
  shows "ord_class.lexordp (zs @ [x]) (zs @ [y]) = (x < y)"
  by (induction zs) auto

text \<open>
  Claim C1, evaluated on the code. The two lists are built by the constructor from
  \<open>{1}\<close> and \<open>{1, 2}\<close>. \<^verbatim>\<open>operator==\<close> calls \<^verbatim>\<open>std::equal\<close> with the end of the left list
  only, so the shorter list on the left compares equal to the longer one (and
  \<^verbatim>\<open>operator!=\<close> says they do not differ); with the longer list on the left the walk
  dereferences the end of the right list.
\<close>

theorem operator_eq_accepts_proper_prefix:
  "SingleLinkedList_init T_nat [1] empty_heap = Some (Inr (0, h_one))
   \<and> SingleLinkedList_init T_nat [1, 2] h_one = Some (Inr (3, h_prefix))
   \<and> traverse h_prefix 0 = Some (Inr [1])
   \<and> traverse h_prefix 3 = Some (Inr [1, 2])
   \<and> operator_eq h_prefix 0 3 = Some (Inr True)
   \<and> operator_neq h_prefix 0 3 = Some (Inr False)
   \<and> operator_eq h_prefix 3 0 = Some (Inl Undefined)"
  by code_simp

text \<open>
  Claim C9. For two lists with chains, \<^verbatim>\<open>operator<\<close> returns the lexicographic order of
  the two element sequences under the order of the elements; \<^verbatim>\<open>a <= b\<close> is the negation
  of \<^verbatim>\<open>b < a\<close>, \<^verbatim>\<open>a > b\<close> is \<^verbatim>\<open>b < a\<close>, and \<^verbatim>\<open>a >= b\<close> is the negation of \<^verbatim>\<open>a < b\<close>. Two
  empty lists compare equal, and two lists that differ in their last element only
  compare unequal, with \<^verbatim>\<open><\<close> the order of the two last elements.
\<close>

theorem comparison_is_lexicographic:
  fixes h :: "('a::order) heap"
  assumes "list_chain h a axs" and "list_chain h b bxs"
  shows "operator_lt h a b = Some (Inr (ord_class.lexordp (map snd axs) (map snd bxs)))
       \<and> operator_le h a b = Some (Inr (\<not> ord_class.lexordp (map snd bxs) (map snd axs)))
       \<and> operator_gt h a b = Some (Inr (ord_class.lexordp (map snd bxs) (map snd axs)))
       \<and> operator_ge h a b = Some (Inr (\<not> ord_class.lexordp (map snd axs) (map snd bxs)))
       \<and> operator_gt h a b = operator_lt h b a
       \<and> (axs = [] \<and> bxs = [] \<longrightarrow>
            operator_eq h a b = Some (Inr True) \<and> operator_neq h a b = Some (Inr False))
       \<and> (\<forall>zs x y. map snd axs = zs @ [x] \<and> map snd bxs = zs @ [y] \<and> x \<noteq> y \<longrightarrow>
            operator_eq h a b = Some (Inr False) \<and> operator_neq h a b = Some (Inr True)
            \<and> operator_lt h a b = Some (Inr (x < y)))"
proof -
  have lt: "operator_lt h a b = Some (Inr (ord_class.lexordp (map snd axs) (map snd bxs)))"
    by (rule operator_lt_list [OF assms])
  have gt: "operator_lt h b a = Some (Inr (ord_class.lexordp (map snd bxs) (map snd axs)))"
    by (rule operator_lt_list [OF assms(2,1)])
  have empty: "operator_eq h a b = Some (Inr True) \<and> operator_neq h a b = Some (Inr False)"
    if "axs = [] \<and> bxs = []"
    using operator_eq_list [OF assms] that by (simp add: operator_neq_def)
  have last: "operator_eq h a b = Some (Inr False) \<and> operator_neq h a b = Some (Inr True)
            \<and> operator_lt h a b = Some (Inr (x < y))"
    if d: "map snd axs = zs @ [x] \<and> map snd bxs = zs @ [y] \<and> x \<noteq> y" for zs x y
  proof -
    have "length (map snd axs) = length (map snd bxs)" using d by simp
    then have len: "length axs = length bxs" by simp
    then have "length axs \<le> length bxs" by simp
    from operator_eq_list [OF assms this]
    have "operator_eq h a b = Some (Inr (map snd axs = map snd bxs))"
      using len by (metis length_map order_refl take_all)
    then have "operator_eq h a b = Some (Inr False)" using d by simp
    moreover have "operator_lt h a b = Some (Inr (x < y))"
      using lt d by (simp add: lexordp_last_differs)
    ultimately show ?thesis by (simp add: operator_neq_def)
  qed
  have le: "operator_le h a b = Some (Inr (\<not> ord_class.lexordp (map snd bxs) (map snd axs)))"
    by (simp add: operator_le_def gt)
  have gt': "operator_gt h a b = Some (Inr (ord_class.lexordp (map snd bxs) (map snd axs)))"
    by (simp add: operator_gt_def gt)
  have ge: "operator_ge h a b = Some (Inr (\<not> ord_class.lexordp (map snd axs) (map snd bxs)))"
    by (simp add: operator_ge_def lt)
  have sym: "operator_gt h a b = operator_lt h b a"
    by (simp add: operator_gt_def)
  from lt le gt' ge sym empty last show ?thesis
    by blast
qed

theorem comparison_is_lexicographic_witness:
  "list_chain h_prefix 0 [(2, 1)] \<and> list_chain h_prefix 3 [(5, 1), (6, 2)]
   \<and> operator_lt h_prefix 0 3 = Some (Inr True)
   \<and> operator_le h_prefix 0 3 = Some (Inr True)
   \<and> operator_gt h_prefix 0 3 = Some (Inr False)
   \<and> operator_ge h_prefix 0 3 = Some (Inr False)"
proof -
  have a: "list_chain h_prefix 0 [(2, 1)]"
    by (simp add: list_chain_def nodes_def cell_def h_prefix_def)
  have b: "list_chain h_prefix 3 [(5, 1), (6, 2)]"
    by (simp add: list_chain_def nodes_def cell_def h_prefix_def)
  from comparison_is_lexicographic [OF a b] a b show ?thesis by simp
qed

section \<open>swap, Clear and the destructor\<close>

lemma swap_effect:
  assumes "nodes h this = Some hn" and "nodes h other = Some ohn"
    and "size_m h this = Some s" and "size_m h other = Some k" and "this \<noteq> other"
  obtains h' where "swap this other h = Inr ((), h')"
    and "nodes h' = (nodes h)(this \<mapsto> hn\<lparr>next_node := next_node ohn\<rparr>,
                              other \<mapsto> ohn\<lparr>next_node := next_node hn\<rparr>)"
    and "size_m h' = (size_m h)(this \<mapsto> k, other \<mapsto> s)"
    and "length (mem h') = length (mem h)"
proof -
  let ?h1 = "store_node this (hn\<lparr>next_node := next_node ohn\<rparr>) h"
  let ?h2 = "store_node other (ohn\<lparr>next_node := next_node hn\<rparr>) ?h1"
  let ?h' = "store_size other s (store_size this k ?h2)"
  have "swap this other h = Inr ((), ?h')"
    using assms by (simp add: swap_def Let_def)
  moreover have "nodes ?h' = (nodes h)(this \<mapsto> hn\<lparr>next_node := next_node ohn\<rparr>,
                              other \<mapsto> ohn\<lparr>next_node := next_node hn\<rparr>)"
    using assms(1,2,5) by (simp add: nodes_store_node)
  moreover have "size_m ?h' = (size_m h)(this \<mapsto> k, other \<mapsto> s)"
    using assms(3,4,5) by (simp add: size_m_store_size)
  moreover have "length (mem ?h') = length (mem h)" by simp
  ultimately show ?thesis using that by blast
qed

lemma Clear_list:
  assumes "list_chain h this axs" and "size_m h this = Some s"
  shows "\<exists>h'. Clear this h = Some (Inr ((), h')) \<and> list_chain h' this []
           \<and> (\<forall>a. nodes h' a = (if a \<in> fst ` set axs then None
                                else if a = this
                                then map_option (\<lambda>n. n\<lparr>next_node := None\<rparr>) (nodes h this)
                                else nodes h a))
           \<and> (\<forall>a. size_m h' a = (if a \<in> fst ` set axs then None
                                 else if a = this then Some (s - of_nat (length axs))
                                 else size_m h a))
           \<and> length (mem h') = length (mem h)"
  using assms
proof (induction axs arbitrary: h s)
  case Nil
  then obtain hn where hn: "nodes h this = Some hn" "next_node hn = None"
    by (auto simp: list_chain_def split: option.splits)
  then have "Clear this h = Some (Inr ((), h))"
    by (subst Clear.simps) simp
  moreover have "hn\<lparr>next_node := None\<rparr> = hn" using hn(2) by simp
  ultimately show ?case using Nil hn by auto
next
  case (Cons ax axs)
  obtain t y where ax: "ax = (t, y)" by (cases ax)
  from Cons.prems(1) ax obtain hn tn where hn: "nodes h this = Some hn" "next_node hn = Some t"
    and tn: "nodes h t = Some tn" "node_value tn = y" "chain (nodes h) (next_node tn) axs"
    by (auto simp: list_chain_def split: option.splits)
  have notin: "this \<notin> fst ` set (ax # axs)"
    by (rule list_chain_sentinel_notin [OF Cons.prems(1)])
  then have tt: "this \<noteq> t" using ax by auto
  have t_notin: "t \<notin> fst ` set axs"
  proof -
    have "chain (nodes h) (Some t) ((t, y) # axs)" using tn by simp
    from chain_first_not_later [OF this] show ?thesis by simp
  qed
  from tt have tt': "t \<noteq> this" by simp
  show ?case
  proof (rule EraseAfter_effect [OF hn tn(1) tt' Cons.prems(2) tt])
    fix h1
    assume r: "EraseAfter this (Some this) h = Inr (next_node tn, h1)"
      and n: "nodes h1 = ((nodes h)(this \<mapsto> hn\<lparr>next_node := next_node tn\<rparr>))(t := None)"
      and sz: "size_m h1 = ((size_m h)(t := None))(this \<mapsto> s - 1)"
      and l: "length (mem h1) = length (mem h)"
    have n1: "nodes h1 this = Some (hn\<lparr>next_node := next_node tn\<rparr>)"
      using tt by (simp add: n)
    have "chain (nodes h1) (next_node tn) axs = chain (nodes h) (next_node tn) axs"
      using notin t_notin by (intro chain_cong) (auto simp: n)
    with tn(3) n1 have lc: "list_chain h1 this axs"
      by (simp add: list_chain_def)
    have s1: "size_m h1 this = Some (s - 1)" by (simp add: sz)
    from Cons.IH [OF lc s1] obtain h' where h': "Clear this h1 = Some (Inr ((), h'))"
      "list_chain h' this []"
      "\<forall>a. nodes h' a = (if a \<in> fst ` set axs then None
                          else if a = this
                          then map_option (\<lambda>n. n\<lparr>next_node := None\<rparr>) (nodes h1 this)
                          else nodes h1 a)"
      "\<forall>a. size_m h' a = (if a \<in> fst ` set axs then None
                           else if a = this then Some (s - 1 - of_nat (length axs))
                           else size_m h1 a)"
      "length (mem h') = length (mem h1)"
      by blast
    have "Clear this h = Some (Inr ((), h'))"
      using hn r h'(1) by (subst Clear.simps) (simp add: PopFront_def before_begin_def)
    moreover have "\<forall>a. nodes h' a = (if a \<in> fst ` set (ax # axs) then None
                                else if a = this
                                then map_option (\<lambda>n. n\<lparr>next_node := None\<rparr>) (nodes h this)
                                else nodes h a)"
      using h'(3) hn(1) tt ax by (auto simp: n)
    moreover have "\<forall>a. size_m h' a = (if a \<in> fst ` set (ax # axs) then None
                                 else if a = this then Some (s - of_nat (length (ax # axs)))
                                 else size_m h a)"
      using h'(4) tt ax by (auto simp: sz algebra_simps)
    ultimately show ?thesis using h'(2,5) l by auto
  qed
qed

lemma dtor_list:
  assumes "list_chain h this axs" and "size_m h this = Some s"
  shows "\<exists>h'. SingleLinkedList_dtor this h = Some (Inr ((), h'))
           \<and> (\<forall>a. nodes h' a = (if a \<in> insert this (fst ` set axs) then None else nodes h a))
           \<and> (\<forall>a. size_m h' a = (if a \<in> insert this (fst ` set axs) then None else size_m h a))
           \<and> length (mem h') = length (mem h)"
proof -
  from Clear_list [OF assms] obtain h1 where h1: "Clear this h = Some (Inr ((), h1))"
    "\<forall>a. nodes h1 a = (if a \<in> fst ` set axs then None
                        else if a = this
                        then map_option (\<lambda>n. n\<lparr>next_node := None\<rparr>) (nodes h this)
                        else nodes h a)"
    "\<forall>a. size_m h1 a = (if a \<in> fst ` set axs then None
                         else if a = this then Some (s - of_nat (length axs))
                         else size_m h a)"
    "length (mem h1) = length (mem h)"
    by blast
  let ?h' = "release_list this h1"
  have "SingleLinkedList_dtor this h = Some (Inr ((), ?h'))"
    using h1(1) by (simp add: SingleLinkedList_dtor_def)
  moreover have "\<forall>a. nodes ?h' a = (if a \<in> insert this (fst ` set axs) then None else nodes h a)"
    using h1(2) by (auto simp: release_list_delete)
  moreover have "\<forall>a. size_m ?h' a = (if a \<in> insert this (fst ` set axs) then None else size_m h a)"
    using h1(3) by (auto simp: release_list_delete)
  moreover have "length (mem ?h') = length (mem h)"
    using h1(4) by (simp add: release_list_delete)
  ultimately show ?thesis by blast
qed


section \<open>The loop of CopyList\<close>

lemma InsertAfter_returns_D:
  assumes "InsertAfter T this (Some p) v h = Inr (r, h1)"
  shows "\<exists>pn s. nodes h p = Some pn \<and> size_m h this = Some s \<and> \<not> copy_throws T v"
proof -
  from assms obtain pn where pn: "nodes h p = Some pn"
    by (auto simp: InsertAfter_def split: option.splits)
  from assms pn have nt: "\<not> copy_throws T v"
    by (auto simp: InsertAfter_def new_Node_def split: if_splits)
  have "size_m h this \<noteq> None"
  proof
    assume none: "size_m h this = None"
    obtain h0 where h0: "new_Node T v (next_node pn) h = Inr (length (mem h), h0)"
      "size_m h0 = size_m h"
      using new_Node_returns [OF nt] by metis
    with assms pn none show False
      by (simp add: InsertAfter_def Let_def)
  qed
  with pn nt show ?thesis by auto
qed

lemma CopyList_step_effect:
  assumes "nodes h p = Some pn" and "size_m h this = Some s" and "size_m h tmp = Some k"
    and "this \<noteq> tmp" and "\<not> copy_throws T v"
  obtains h' where "CopyList_step T this tmp (Some p) v h = Inr (Some (length (mem h)), h')"
    and "nodes h' = (nodes h)(p \<mapsto> pn\<lparr>next_node := Some (length (mem h))\<rparr>,
                              length (mem h) \<mapsto> \<lparr>node_value = v, next_node = next_node pn\<rparr>)"
    and "size_m h' = (size_m h)(this \<mapsto> s + 1, tmp \<mapsto> k + 1)"
    and "length (mem h') = Suc (length (mem h))"
proof (rule InsertAfter_effect [OF assms(1,2,5)])
  fix h1
  assume r: "InsertAfter T this (Some p) v h = Inr (Some (length (mem h)), h1)"
    and n: "nodes h1 = (nodes h)(p \<mapsto> pn\<lparr>next_node := Some (length (mem h))\<rparr>,
                              length (mem h) \<mapsto> \<lparr>node_value = v, next_node = next_node pn\<rparr>)"
    and sz: "size_m h1 = (size_m h)(this \<mapsto> s + 1)"
    and l: "length (mem h1) = Suc (length (mem h))"
  let ?h' = "store_size tmp (k + 1) h1"
  have ne: "p \<noteq> length (mem h)" using nodes_live [OF assms(1)] by simp
  have k1: "size_m h1 tmp = Some k" using assms(3,4) by (simp add: sz)
  have "nodes h1 p = Some (pn\<lparr>next_node := Some (length (mem h))\<rparr>)"
    using ne by (simp add: n)
  then have "CopyList_step T this tmp (Some p) v h = Inr (Some (length (mem h)), ?h')"
    using r k1 by (simp add: CopyList_step_def iter_incr_def)
  moreover have "nodes ?h' = (nodes h)(p \<mapsto> pn\<lparr>next_node := Some (length (mem h))\<rparr>,
                              length (mem h) \<mapsto> \<lparr>node_value = v, next_node = next_node pn\<rparr>)"
    by (simp add: n)
  moreover have "size_m ?h' = (size_m h)(this \<mapsto> s + 1, tmp \<mapsto> k + 1)"
    using k1 by (simp add: size_m_store_size sz)
  moreover have "length (mem ?h') = Suc (length (mem h))" by (simp add: l)
  ultimately show ?thesis using that by blast
qed

lemma CopyList_step_throws:
  assumes "nodes h p = Some pn" and "copy_throws T v"
  shows "CopyList_step T this tmp (Some p) v h = Inl (Thrown h)"
  using InsertAfter_throws [OF assms] by (simp add: CopyList_step_def)

lemma CopyList_step_returns_D:
  assumes "CopyList_step T this tmp (Some p) v h = Inr (it', h')"
  shows "it' = Some (length (mem h))
       \<and> (\<forall>a. a \<noteq> p \<and> a \<noteq> length (mem h) \<longrightarrow> nodes h' a = nodes h a)"
proof -
  from assms obtain r h1 where ins: "InsertAfter T this (Some p) v h = Inr (r, h1)"
    by (auto simp: CopyList_step_def split: sum.splits)
  from InsertAfter_returns_D [OF ins] obtain pn s where pn: "nodes h p = Some pn"
    and s: "size_m h this = Some s" and nt: "\<not> copy_throws T v" by blast
  show ?thesis
  proof (rule InsertAfter_effect [OF pn s nt])
    fix h2
    assume r2: "InsertAfter T this (Some p) v h = Inr (Some (length (mem h)), h2)"
      and n: "nodes h2 = (nodes h)(p \<mapsto> pn\<lparr>next_node := Some (length (mem h))\<rparr>,
                              length (mem h) \<mapsto> \<lparr>node_value = v, next_node = next_node pn\<rparr>)"
    from ins r2 have eq: "r = Some (length (mem h))" "h1 = h2" by simp_all
    from assms ins eq obtain n' where "it' = Some (length (mem h))"
      "h' = store_size tmp (n' + 1) h2"
      by (auto simp: CopyList_step_def split: sum.splits option.splits)
    then show ?thesis by (simp add: n)
  qed
qed

lemma CopyList_loop_il_append:
  "CopyList_loop_il T this tmp it (vs @ ws) h =
     (case CopyList_loop_il T this tmp it vs h of
        Inl e \<Rightarrow> Inl e
      | Inr (it', h') \<Rightarrow> CopyList_loop_il T this tmp it' ws h')"
  by (induction vs arbitrary: it h) (auto split: sum.splits)

lemma CopyList_loop_il_appends:
  assumes "chain (nodes h) (Some r) (cs @ [(p, x)])"
    and "size_m h this = Some s" and "size_m h tmp = Some k" and "this \<noteq> tmp"
    and "\<forall>v\<in>set vs. \<not> copy_throws T v"
  shows "\<exists>h' q. CopyList_loop_il T this tmp (Some p) vs h = Inr (Some q, h')
           \<and> chain (nodes h') (Some r)
               (cs @ (p, x) # zip [length (mem h) ..< length (mem h) + length vs] vs)
           \<and> nodes h' q \<noteq> None
           \<and> size_m h' = (size_m h)(this \<mapsto> s + of_nat (length vs),
                                      tmp \<mapsto> k + of_nat (length vs))
           \<and> length (mem h') = length (mem h) + length vs
           \<and> (\<forall>a. a < length (mem h) \<and> a \<noteq> p \<longrightarrow> nodes h' a = nodes h a)"
  using assms
proof (induction vs arbitrary: h p x cs s k)
  case Nil
  have live: "nodes h p \<noteq> None"
    using chain_live [OF Nil(1), of p] by simp
  have sz: "size_m h = (size_m h)(this \<mapsto> s + of_nat (length ([]::'a list)),
                               tmp \<mapsto> k + of_nat (length ([]::'a list)))"
    using Nil(2,3) by (auto simp: fun_eq_iff)
  show ?case
  proof (intro exI conjI)
    show "CopyList_loop_il T this tmp (Some p) [] h = Inr (Some p, h)" by simp
    show "chain (nodes h) (Some r)
            (cs @ (p, x) # zip [length (mem h) ..< length (mem h) + length ([]::'a list)] [])"
      using Nil(1) by simp
    show "nodes h p \<noteq> None" by (rule live)
    show "size_m h = (size_m h)(this \<mapsto> s + of_nat (length ([]::'a list)),
                               tmp \<mapsto> k + of_nat (length ([]::'a list)))"
      by (rule sz)
    show "length (mem h) = length (mem h) + length ([]::'a list)" by simp
    show "\<forall>a. a < length (mem h) \<and> a \<noteq> p \<longrightarrow> nodes h a = nodes h a" by simp
  qed
next
  case (Cons v vs)
  let ?L = "length (mem h)"
  from Cons.prems(5) have nt: "\<not> copy_throws T v" and rest: "\<forall>v\<in>set vs. \<not> copy_throws T v"
    by simp_all
  from chain_looks_up [OF Cons.prems(1), of p x]
  obtain pn where pn: "nodes h p = Some pn" by auto
  show ?case
  proof (rule CopyList_step_effect [OF pn Cons.prems(2,3,4) nt])
    fix h1
    assume r: "CopyList_step T this tmp (Some p) v h = Inr (Some ?L, h1)"
      and n: "nodes h1 = (nodes h)(p \<mapsto> pn\<lparr>next_node := Some ?L\<rparr>,
                                ?L \<mapsto> \<lparr>node_value = v, next_node = next_node pn\<rparr>)"
      and sz: "size_m h1 = (size_m h)(this \<mapsto> s + 1, tmp \<mapsto> k + 1)"
      and l: "length (mem h1) = Suc ?L"
    from chain_insert [OF Cons.prems(1) pn nodes_fresh]
    have "chain (nodes h1) (Some r) (cs @ (p, x) # (?L, v) # [])"
      by (simp only: n)
    then have c1: "chain (nodes h1) (Some r) ((cs @ [(p, x)]) @ [(?L, v)])" by simp
    have s1: "size_m h1 this = Some (s + 1)" using Cons.prems(4) by (simp add: sz)
    have k1: "size_m h1 tmp = Some (k + 1)" by (simp add: sz)
    from Cons.IH [OF c1 s1 k1 Cons.prems(4) rest]
    obtain h' q where h': "CopyList_loop_il T this tmp (Some ?L) vs h1 = Inr (Some q, h')"
      "chain (nodes h') (Some r)
         ((cs @ [(p, x)]) @ (?L, v) # zip [length (mem h1) ..< length (mem h1) + length vs] vs)"
      "nodes h' q \<noteq> None"
      "size_m h' = (size_m h1)(this \<mapsto> s + 1 + of_nat (length vs),
                                tmp \<mapsto> k + 1 + of_nat (length vs))"
      "length (mem h') = length (mem h1) + length vs"
      "\<forall>a. a < length (mem h1) \<and> a \<noteq> ?L \<longrightarrow> nodes h' a = nodes h1 a"
      by blast
    have "[?L ..< ?L + length (v # vs)] = ?L # [Suc ?L ..< Suc ?L + length vs]"
      by (subst upt_conv_Cons) simp_all
    then have z: "zip [?L ..< ?L + length (v # vs)] (v # vs)
               = (?L, v) # zip [Suc ?L ..< Suc ?L + length vs] vs"
      by (simp only: zip_Cons_Cons)
    have "CopyList_loop_il T this tmp (Some p) (v # vs) h = Inr (Some q, h')"
      using r h'(1) by simp
    moreover have "chain (nodes h') (Some r)
               (cs @ (p, x) # zip [?L ..< ?L + length (v # vs)] (v # vs))"
      using h'(2) by (simp only: z l) simp
    moreover have "size_m h' = (size_m h)(this \<mapsto> s + of_nat (length (v # vs)),
                                      tmp \<mapsto> k + of_nat (length (v # vs)))"
      by (auto simp: h'(4) sz fun_eq_iff algebra_simps)
    moreover have "length (mem h') = ?L + length (v # vs)"
      by (simp add: h'(5) l)
    moreover have "\<forall>a. a < ?L \<and> a \<noteq> p \<longrightarrow> nodes h' a = nodes h a"
      using h'(6) by (auto simp: l n)
    ultimately show ?thesis using h'(3) by blast
  qed
qed

lemma CopyList_loop_list_il:
  assumes "chain (nodes h) it bxs" and "p \<notin> fst ` set bxs"
  shows "CopyList_loop_list T this tmp (Some p) it h
           = Some (CopyList_loop_il T this tmp (Some p) (map snd bxs) h)"
  using assms
proof (induction bxs arbitrary: h p it)
  case Nil
  then show ?case
    by (subst CopyList_loop_list.simps) (simp add: iter_neq_def list_end_def)
next
  case (Cons bx bxs)
  from Cons.prems(1) obtain bn where b: "it = Some (fst bx)" "nodes h (fst bx) = Some bn"
    "node_value bn = snd bx" "chain (nodes h) (next_node bn) bxs"
    by (auto simp: chain_Cons)
  show ?case
  proof (cases "CopyList_step T this tmp (Some p) (snd bx) h")
    case (Inl e)
    with b show ?thesis
      by (subst CopyList_loop_list.simps) (simp add: iter_neq_def list_end_def iter_deref_def)
  next
    case (Inr res)
    obtain it' h' where res: "res = (it', h')" by (cases res)
    from CopyList_step_returns_D [OF Inr [unfolded res]]
    have it': "it' = Some (length (mem h))"
      and frame: "\<forall>a. a \<noteq> p \<and> a \<noteq> length (mem h) \<longrightarrow> nodes h' a = nodes h a"
      by simp_all
    have live: "a < length (mem h)" if "a \<in> fst ` set (bx # bxs)" for a
      using chain_live [OF Cons.prems(1) that] nodes_live [of h a] by auto
    have same: "nodes h' a = nodes h a" if "a \<in> fst ` set (bx # bxs)" for a
      using frame live [OF that] that Cons.prems(2) by auto
    have "nodes h' (fst bx) = Some bn" using same [of "fst bx"] b(2) by simp
    moreover have "chain (nodes h') (next_node bn) bxs"
      using b(4) chain_cong [of bxs "nodes h'" "nodes h" "next_node bn"] same by auto
    moreover have "length (mem h) \<notin> fst ` set bxs"
      using live by fastforce
    ultimately have "CopyList_loop_list T this tmp (Some (length (mem h))) (next_node bn) h'
           = Some (CopyList_loop_il T this tmp (Some (length (mem h))) (map snd bxs) h')"
      using Cons.IH by blast
    with b Inr res it' \<open>nodes h' (fst bx) = Some bn\<close> show ?thesis
      by (subst CopyList_loop_list.simps)
         (simp add: iter_neq_def list_end_def iter_deref_def iter_incr_def)
  qed
qed


section \<open>CopyList and the constructors\<close>

lemma fst_zip_upt:
  "length vs = n \<Longrightarrow> fst ` set (zip [m ..< m + n] vs) = {m ..< m + n}"
proof -
  assume "length vs = n"
  then have "map fst (zip [m ..< m + n] vs) = [m ..< m + n]" by simp
  then have "set (map fst (zip [m ..< m + n] vs)) = set [m ..< m + n]" by (rule arg_cong)
  then show ?thesis by simp
qed

lemma size_m_None_beyond: "length (mem h) \<le> a \<Longrightarrow> size_m h a = None"
  using size_m_live [of h a] by (cases "size_m h a") auto

lemma nodes_None_beyond: "length (mem h) \<le> a \<Longrightarrow> nodes h a = None"
  using nodes_live [of h a] by (cases "nodes h a") auto

lemma CopyList_il_prepare:
  assumes inv: "list_inv h this []"
  obtains h0 hn where "SingleLinkedList_default T h = (length (mem h), h0)"
    and "nodes h0 = (nodes h)(length (mem h) \<mapsto> \<lparr>node_value = default_ctor T, next_node = None\<rparr>)"
    and "size_m h0 = (size_m h)(length (mem h) \<mapsto> 0)"
    and "length (mem h0) = Suc (length (mem h))"
    and "this < length (mem h)" and "nodes h this = Some hn" and "next_node hn = None"
    and "size_m h this = Some 0"
proof -
  from inv obtain hn where hn: "nodes h this = Some hn" "next_node hn = None"
    and s: "size_m h this = Some 0"
    by (auto simp: list_inv_def list_chain_def split: option.splits)
  from alloc_list_returns [of T h] obtain h0 where
    "alloc_list T h = (length (mem h), h0)"
    "nodes h0 = (nodes h)(length (mem h) \<mapsto> \<lparr>node_value = default_ctor T, next_node = None\<rparr>)"
    "size_m h0 = (size_m h)(length (mem h) \<mapsto> 0)"
    "length (mem h0) = Suc (length (mem h))"
    by metis
  with hn s nodes_live [OF hn(1)] show ?thesis
    using that by (simp add: SingleLinkedList_default_def)
qed

lemma CopyList_il_returns:
  assumes inv: "list_inv h this []" and nt: "\<forall>v\<in>set vs. \<not> copy_throws T v"
  shows "\<exists>h'. CopyList_il T this vs h = Some (Inr ((), h'))
           \<and> list_inv h' this (zip [Suc (length (mem h)) ..< Suc (length (mem h)) + length vs] vs)
           \<and> (\<forall>a. a < length (mem h) \<and> a \<noteq> this \<longrightarrow>
                  nodes h' a = nodes h a \<and> size_m h' a = size_m h a)
           \<and> (\<forall>a. length (mem h) \<le> a \<longrightarrow> size_m h' a = None)
           \<and> length (mem h') = Suc (length (mem h)) + length vs"
proof (rule CopyList_il_prepare [OF inv, of T])
  let ?L = "length (mem h)"
  let ?d = "default_ctor T"
  let ?zs = "zip [Suc ?L ..< Suc ?L + length vs] vs"
  fix h0 hn
  assume al: "SingleLinkedList_default T h = (?L, h0)"
    and n0: "nodes h0 = (nodes h)(?L \<mapsto> \<lparr>node_value = ?d, next_node = None\<rparr>)"
    and s0: "size_m h0 = (size_m h)(?L \<mapsto> 0)"
    and l0: "length (mem h0) = Suc ?L"
    and lt: "this < ?L" and hn: "nodes h this = Some hn" "next_node hn = None"
    and st: "size_m h this = Some 0"
  have ne: "this \<noteq> ?L" using lt by simp
  have c0: "chain (nodes h0) (Some ?L) ([] @ [(?L, ?d)])" by (simp add: n0)
  have st0: "size_m h0 this = Some 0" using st ne by (simp add: s0)
  have sl0: "size_m h0 ?L = Some 0" by (simp add: s0)
  from CopyList_loop_il_appends [OF c0 st0 sl0 ne nt]
  obtain h1 q where h1: "CopyList_loop_il T this ?L (Some ?L) vs h0 = Inr (Some q, h1)"
    "chain (nodes h1) (Some ?L) ([] @ (?L, ?d) # zip [length (mem h0) ..< length (mem h0) + length vs] vs)"
    "size_m h1 = (size_m h0)(this \<mapsto> 0 + of_nat (length vs), ?L \<mapsto> 0 + of_nat (length vs))"
    "length (mem h1) = length (mem h0) + length vs"
    "\<forall>a. a < length (mem h0) \<and> a \<noteq> ?L \<longrightarrow> nodes h1 a = nodes h0 a"
    by blast
  from h1(2) have "chain (nodes h1) (Some ?L) ((?L, ?d) # ?zs)" by (simp add: l0)
  then obtain tn where tn: "nodes h1 ?L = Some tn" "chain (nodes h1) (next_node tn) ?zs"
    by (auto simp: chain_Cons)
  have old1: "nodes h1 a = nodes h a" if "a < ?L" for a
    using h1(5) that by (simp add: l0 n0)
  have hn1: "nodes h1 this = Some hn" using old1 [OF lt] hn(1) by simp
  have st1: "size_m h1 this = Some (of_nat (length vs))" using ne by (simp add: h1(3))
  have sl1: "size_m h1 ?L = Some (of_nat (length vs))" by (simp add: h1(3))
  have zs_above: "Suc ?L \<le> a" if "a \<in> fst ` set ?zs" for a
    using that fst_zip_upt [of vs "length vs" "Suc ?L"] by auto
  show ?thesis
  proof (rule swap_effect [OF hn1 tn(1) st1 sl1 ne])
    fix h2
    assume sw: "swap this ?L h1 = Inr ((), h2)"
      and n2: "nodes h2 = (nodes h1)(this \<mapsto> hn\<lparr>next_node := next_node tn\<rparr>,
                                ?L \<mapsto> tn\<lparr>next_node := next_node hn\<rparr>)"
      and s2: "size_m h2 = (size_m h1)(this \<mapsto> of_nat (length vs), ?L \<mapsto> of_nat (length vs))"
      and l2: "length (mem h2) = length (mem h1)"
    have lc2: "list_chain h2 ?L []"
      using hn(2) by (simp add: list_chain_def n2)
    have sl2: "size_m h2 ?L = Some (of_nat (length vs))" by (simp add: s2)
    from dtor_list [OF lc2 sl2] obtain h3 where h3:
      "SingleLinkedList_dtor ?L h2 = Some (Inr ((), h3))"
      "\<forall>a. nodes h3 a = (if a = ?L then None else nodes h2 a)"
      "\<forall>a. size_m h3 a = (if a = ?L then None else size_m h2 a)"
      "length (mem h3) = length (mem h2)"
      by auto
    have n3: "nodes h3 a = (if a = ?L then None else nodes h2 a)" for a
      using h3(2) by simp
    have s3: "size_m h3 a = (if a = ?L then None else size_m h2 a)" for a
      using h3(3) by simp
    have res: "CopyList_il T this vs h = Some (Inr ((), h3))"
      using al h1(1) sw h3(1) by (simp add: CopyList_il_def CopyList_finish_def before_begin_def)
    have "chain (nodes h3) (next_node tn) ?zs = chain (nodes h1) (next_node tn) ?zs"
    proof (rule chain_cong)
      fix a assume "a \<in> fst ` set ?zs"
      from zs_above [OF this] lt have "a \<noteq> ?L" "a \<noteq> this" by simp_all
      then show "nodes h3 a = nodes h1 a" by (simp add: n3 n2)
    qed
    with tn(2) have "chain (nodes h3) (next_node tn) ?zs" by simp
    moreover have "nodes h3 this = Some (hn\<lparr>next_node := next_node tn\<rparr>)"
      using ne by (simp add: n3 n2)
    ultimately have lc3: "list_chain h3 this ?zs" by (simp add: list_chain_def)
    have lz: "length ?zs = length vs" by (simp del: upt_Suc)
    have "size_m h3 this = Some (of_nat (length vs))"
      using ne by (simp add: s3 s2)
    then have "size_m h3 this = Some (of_nat (length ?zs))"
      by (simp only: lz)
    with lc3 have inv3: "list_inv h3 this ?zs" by (simp add: list_inv_def)
    have frame: "\<forall>a. a < ?L \<and> a \<noteq> this \<longrightarrow> nodes h3 a = nodes h a \<and> size_m h3 a = size_m h a"
      using old1 by (auto simp: n3 n2 s3 s2 h1(3) s0)
    have above: "\<forall>a. ?L \<le> a \<longrightarrow> size_m h3 a = None"
      using lt size_m_None_beyond [of h] by (auto simp: s3 s2 h1(3) s0)
    have "length (mem h3) = Suc ?L + length vs"
      by (simp add: h3(4) l2 h1(4) l0)
    with res inv3 frame above show ?thesis by blast
  qed
qed

lemma CopyList_il_throws:
  assumes inv: "list_inv h this []" and nt: "\<forall>v\<in>set good. \<not> copy_throws T v"
    and bad: "copy_throws T bad"
  shows "\<exists>h'. CopyList_il T this (good @ bad # rest) h = Some (Inl (Thrown h'))
           \<and> (\<forall>a. a < length (mem h) \<longrightarrow> nodes h' a = nodes h a)
           \<and> (\<forall>a. a < length (mem h) \<and> a \<noteq> this \<longrightarrow> size_m h' a = size_m h a)
           \<and> size_m h' this \<noteq> None
           \<and> (\<forall>a. length (mem h) \<le> a \<longrightarrow> nodes h' a = None \<and> size_m h' a = None)"
proof (rule CopyList_il_prepare [OF inv, of T])
  let ?L = "length (mem h)"
  let ?d = "default_ctor T"
  let ?zs = "zip [Suc ?L ..< Suc ?L + length good] good"
  fix h0 hn
  assume al: "SingleLinkedList_default T h = (?L, h0)"
    and n0: "nodes h0 = (nodes h)(?L \<mapsto> \<lparr>node_value = ?d, next_node = None\<rparr>)"
    and s0: "size_m h0 = (size_m h)(?L \<mapsto> 0)"
    and l0: "length (mem h0) = Suc ?L"
    and lt: "this < ?L" and hn: "nodes h this = Some hn" "next_node hn = None"
    and st: "size_m h this = Some 0"
  have ne: "this \<noteq> ?L" using lt by simp
  have c0: "chain (nodes h0) (Some ?L) ([] @ [(?L, ?d)])" by (simp add: n0)
  have st0: "size_m h0 this = Some 0" using st ne by (simp add: s0)
  have sl0: "size_m h0 ?L = Some 0" by (simp add: s0)
  from CopyList_loop_il_appends [OF c0 st0 sl0 ne nt]
  obtain h1 q where h1: "CopyList_loop_il T this ?L (Some ?L) good h0 = Inr (Some q, h1)"
    "chain (nodes h1) (Some ?L) ([] @ (?L, ?d) # zip [length (mem h0) ..< length (mem h0) + length good] good)"
    "nodes h1 q \<noteq> None"
    "size_m h1 = (size_m h0)(this \<mapsto> 0 + of_nat (length good), ?L \<mapsto> 0 + of_nat (length good))"
    "length (mem h1) = length (mem h0) + length good"
    "\<forall>a. a < length (mem h0) \<and> a \<noteq> ?L \<longrightarrow> nodes h1 a = nodes h0 a"
    by blast
  from h1(3) obtain qn where qn: "nodes h1 q = Some qn" by auto
  have loop: "CopyList_loop_il T this ?L (Some ?L) (good @ bad # rest) h0 = Inl (Thrown h1)"
    using h1(1) CopyList_step_throws [OF qn bad]
    by (simp add: CopyList_loop_il_append)
  from h1(2) have "chain (nodes h1) (Some ?L) ((?L, ?d) # ?zs)" by (simp add: l0)
  then have lc1: "list_chain h1 ?L ?zs" by (rule rooted_list_chain)
  have sl1: "size_m h1 ?L = Some (of_nat (length good))" by (simp add: h1(4))
  from dtor_list [OF lc1 sl1] obtain h2 where h2:
    "SingleLinkedList_dtor ?L h1 = Some (Inr ((), h2))"
    "\<forall>a. nodes h2 a = (if a \<in> insert ?L (fst ` set ?zs) then None else nodes h1 a)"
    "\<forall>a. size_m h2 a = (if a \<in> insert ?L (fst ` set ?zs) then None else size_m h1 a)"
    by blast
  have dom: "insert ?L (fst ` set ?zs) = {?L ..< Suc ?L + length good}"
    using fst_zip_upt [of good "length good" "Suc ?L"] by auto
  have res: "CopyList_il T this (good @ bad # rest) h = Some (Inl (Thrown h2))"
    using al loop h2(1) by (simp add: CopyList_il_def CopyList_finish_def before_begin_def)
  have n2: "nodes h2 a = (if a \<in> {?L ..< Suc ?L + length good} then None else nodes h1 a)" for a
    using h2(2) by (simp only: dom)
  have s2: "size_m h2 a = (if a \<in> {?L ..< Suc ?L + length good} then None else size_m h1 a)" for a
    using h2(3) by (simp only: dom)
  have a1: "\<forall>a. a < ?L \<longrightarrow> nodes h2 a = nodes h a"
    using h1(6) by (simp add: n2 l0 n0)
  have a2: "\<forall>a. a < ?L \<and> a \<noteq> this \<longrightarrow> size_m h2 a = size_m h a"
    by (simp add: s2 h1(4) s0)
  have a3: "size_m h2 this \<noteq> None"
    using lt by (simp add: s2 h1(4))
  have a4: "nodes h2 a = None \<and> size_m h2 a = None" if "?L \<le> a" for a
  proof (cases "a < Suc ?L + length good")
    case True
    with that show ?thesis by (simp add: n2 s2)
  next
    case False
    then have "length (mem h1) \<le> a" by (simp add: h1(5) l0)
    from nodes_None_beyond [OF this] size_m_None_beyond [OF this] False show ?thesis
      by (simp add: n2 s2)
  qed
  from res a1 a2 a3 a4 show ?thesis by blast
qed


lemma alloc_list_inv:
  obtains h0 where "alloc_list T h = (length (mem h), h0)"
    and "nodes h0 = (nodes h)(length (mem h) \<mapsto> \<lparr>node_value = default_ctor T, next_node = None\<rparr>)"
    and "size_m h0 = (size_m h)(length (mem h) \<mapsto> 0)"
    and "length (mem h0) = Suc (length (mem h))"
    and "list_inv h0 (length (mem h)) []"
proof (rule alloc_list_returns [of T h])
  fix h0
  assume a: "alloc_list T h = (length (mem h), h0)"
    and n: "nodes h0 = (nodes h)(length (mem h) \<mapsto> \<lparr>node_value = default_ctor T, next_node = None\<rparr>)"
    and s: "size_m h0 = (size_m h)(length (mem h) \<mapsto> 0)"
    and l: "length (mem h0) = Suc (length (mem h))"
  have "list_inv h0 (length (mem h)) []"
    by (simp add: list_inv_def list_chain_def n s)
  with a n s l show ?thesis using that by blast
qed

lemma init_returns:
  assumes "\<forall>v\<in>set vs. \<not> copy_throws T v"
  shows "\<exists>h'. SingleLinkedList_init T vs h = Some (Inr (length (mem h), h'))
           \<and> list_inv h' (length (mem h))
                (zip [length (mem h) + 2 ..< length (mem h) + 2 + length vs] vs)
           \<and> (\<forall>a. a < length (mem h) \<longrightarrow> nodes h' a = nodes h a \<and> size_m h' a = size_m h a)
           \<and> (\<forall>a. length (mem h) < a \<longrightarrow> size_m h' a = None)
           \<and> length (mem h') = length (mem h) + 2 + length vs"
proof (rule alloc_list_inv [of T h])
  let ?L = "length (mem h)"
  fix h0
  assume a: "alloc_list T h = (?L, h0)"
    and n: "nodes h0 = (nodes h)(?L \<mapsto> \<lparr>node_value = default_ctor T, next_node = None\<rparr>)"
    and s: "size_m h0 = (size_m h)(?L \<mapsto> 0)"
    and l: "length (mem h0) = Suc ?L"
    and inv0: "list_inv h0 ?L []"
  from CopyList_il_returns [OF inv0 assms] obtain h' where h':
    "CopyList_il T ?L vs h0 = Some (Inr ((), h'))"
    "list_inv h' ?L (zip [Suc (length (mem h0)) ..< Suc (length (mem h0)) + length vs] vs)"
    "\<forall>a. a < length (mem h0) \<and> a \<noteq> ?L \<longrightarrow> nodes h' a = nodes h0 a \<and> size_m h' a = size_m h0 a"
    "\<forall>a. length (mem h0) \<le> a \<longrightarrow> size_m h' a = None"
    "length (mem h') = Suc (length (mem h0)) + length vs"
    by blast
  have "SingleLinkedList_init T vs h = Some (Inr (?L, h'))"
    using a h'(1) by (simp add: SingleLinkedList_init_def)
  moreover have "list_inv h' ?L (zip [?L + 2 ..< ?L + 2 + length vs] vs)"
    using h'(2) by (simp only: l) (simp del: upt_Suc)
  moreover have "\<forall>a. a < ?L \<longrightarrow> nodes h' a = nodes h a \<and> size_m h' a = size_m h a"
    using h'(3) by (simp add: l n s)
  moreover have "\<forall>a. ?L < a \<longrightarrow> size_m h' a = None"
    using h'(4) by (simp add: l)
  moreover have "length (mem h') = ?L + 2 + length vs"
    using h'(5) by (simp add: l)
  ultimately show ?thesis by blast
qed

lemma init_throws:
  assumes "\<forall>v\<in>set good. \<not> copy_throws T v" and "copy_throws T bad"
  shows "\<exists>h'. SingleLinkedList_init T (good @ bad # rest) h = Some (Inl (Thrown h'))
           \<and> (\<forall>a. a < length (mem h) \<longrightarrow> nodes h' a = nodes h a \<and> size_m h' a = size_m h a)
           \<and> (\<forall>a. length (mem h) \<le> a \<longrightarrow> nodes h' a = None \<and> size_m h' a = None)"
proof (rule alloc_list_inv [of T h])
  let ?L = "length (mem h)"
  fix h0
  assume a: "alloc_list T h = (?L, h0)"
    and n: "nodes h0 = (nodes h)(?L \<mapsto> \<lparr>node_value = default_ctor T, next_node = None\<rparr>)"
    and s: "size_m h0 = (size_m h)(?L \<mapsto> 0)"
    and l: "length (mem h0) = Suc ?L"
    and inv0: "list_inv h0 ?L []"
  from CopyList_il_throws [OF inv0 assms, of rest] obtain h1 where h1:
    "CopyList_il T ?L (good @ bad # rest) h0 = Some (Inl (Thrown h1))"
    "\<forall>a. a < length (mem h0) \<longrightarrow> nodes h1 a = nodes h0 a"
    "\<forall>a. a < length (mem h0) \<and> a \<noteq> ?L \<longrightarrow> size_m h1 a = size_m h0 a"
    "\<forall>a. length (mem h0) \<le> a \<longrightarrow> nodes h1 a = None \<and> size_m h1 a = None"
    by blast
  let ?h' = "release_list ?L h1"
  have "SingleLinkedList_init T (good @ bad # rest) h = Some (Inl (Thrown ?h'))"
    using a h1(1) by (simp add: SingleLinkedList_init_def)
  moreover have "\<forall>a. a < ?L \<longrightarrow> nodes ?h' a = nodes h a \<and> size_m ?h' a = size_m h a"
    using h1(2,3) by (simp add: release_list_delete l n s)
  moreover have "\<forall>a. ?L \<le> a \<longrightarrow> nodes ?h' a = None \<and> size_m ?h' a = None"
    using h1(4) by (auto simp: release_list_delete l)
  ultimately show ?thesis by blast
qed

lemma copy_eq_init:
  assumes "list_chain h other bxs"
  shows "SingleLinkedList_copy T other h = SingleLinkedList_init T (map snd bxs) h"
proof (rule alloc_list_inv [of T h])
  let ?L = "length (mem h)"
  fix h0
  assume a: "alloc_list T h = (?L, h0)"
    and n: "nodes h0 = (nodes h)(?L \<mapsto> \<lparr>node_value = default_ctor T, next_node = None\<rparr>)"
    and s: "size_m h0 = (size_m h)(?L \<mapsto> 0)"
    and l: "length (mem h0) = Suc ?L"
  have below: "a < ?L" if "a \<in> insert other (fst ` set bxs)" for a
    using list_chain_below [OF assms that] .
  have lc0: "list_chain h0 other bxs"
  proof -
    from assms obtain ohn where o: "nodes h other = Some ohn" "chain (nodes h) (next_node ohn) bxs"
      by (auto simp: list_chain_def split: option.splits)
    have "chain (nodes h0) (next_node ohn) bxs = chain (nodes h) (next_node ohn) bxs"
    proof (rule chain_cong)
      fix a assume "a \<in> fst ` set bxs"
      then have "a \<noteq> ?L" using below [of a] by simp
      then show "nodes h0 a = nodes h a" by (simp add: n)
    qed
    moreover have "nodes h0 other = Some ohn" using o(1) below [of other] by (simp add: n)
    ultimately show ?thesis using o(2) by (simp add: list_chain_def)
  qed
  show ?thesis
  proof (rule alloc_list_inv [of T h0])
    fix h1
    assume a1: "alloc_list T h0 = (length (mem h0), h1)"
      and n1: "nodes h1 = (nodes h0)(length (mem h0) \<mapsto> \<lparr>node_value = default_ctor T, next_node = None\<rparr>)"
    have below0: "a < length (mem h0)" if "a \<in> insert other (fst ` set bxs)" for a
      using below [OF that] by (simp add: l)
    from lc0 obtain ohn where o: "nodes h0 other = Some ohn" "chain (nodes h0) (next_node ohn) bxs"
      by (auto simp: list_chain_def split: option.splits)
    have c1: "chain (nodes h1) (next_node ohn) bxs"
    proof -
      have "chain (nodes h1) (next_node ohn) bxs = chain (nodes h0) (next_node ohn) bxs"
      proof (rule chain_cong)
        fix a assume "a \<in> fst ` set bxs"
        then have "a \<noteq> length (mem h0)" using below0 [of a] by simp
        then show "nodes h1 a = nodes h0 a" by (simp add: n1)
      qed
      with o(2) show ?thesis by simp
    qed
    have o1: "nodes h1 other = Some ohn" using o(1) below0 [of other] by (simp add: n1)
    have notin: "length (mem h0) \<notin> fst ` set bxs" using below0 by auto
    have loop: "CopyList_loop_list T ?L (length (mem h0)) (Some (length (mem h0))) (next_node ohn) h1
             = Some (CopyList_loop_il T ?L (length (mem h0)) (Some (length (mem h0))) (map snd bxs) h1)"
      by (rule CopyList_loop_list_il [OF c1 notin])
    have cl: "CopyList_list T ?L other h0 = CopyList_il T ?L (map snd bxs) h0"
      using a1 o1 loop
      by (simp add: CopyList_list_def CopyList_il_def SingleLinkedList_default_def
            list_begin_def before_begin_def)
    have "size_m h0 ?L = Some 0" by (simp add: s)
    moreover have "list_begin h0 ?L = Inr None" by (simp add: list_begin_def n)
    ultimately show ?thesis
      using a cl by (simp add: SingleLinkedList_copy_def SingleLinkedList_init_def)
  qed
qed


section \<open>The claim about the constructor from a sequence\<close>

text \<open>
  Claim C3. When no copy of an input value throws, the constructor from an ordered
  sequence \<open>vs\<close> returns a well-formed list whose chain holds exactly the values \<open>vs\<close>
  in their order, so that traversal from \<^verbatim>\<open>begin()\<close> gives \<open>vs\<close>, and whose size is the
  length of \<open>vs\<close>. Nothing that was in memory before is changed.
\<close>

theorem init_builds_in_order:
  assumes "\<forall>v\<in>set vs. \<not> copy_throws T v"
  shows "\<exists>this h' axs. SingleLinkedList_init T vs h = Some (Inr (this, h'))
           \<and> list_inv h' this axs \<and> map snd axs = vs
           \<and> traverse h' this = Some (Inr vs)
           \<and> GetSize h' this = Inr (of_nat (length vs))
           \<and> (\<forall>a. a < length (mem h) \<longrightarrow> nodes h' a = nodes h a \<and> size_m h' a = size_m h a)"
proof -
  let ?L = "length (mem h)"
  let ?zs = "zip [?L + 2 ..< ?L + 2 + length vs] vs"
  from init_returns [OF assms, of h] obtain h' where h':
    "SingleLinkedList_init T vs h = Some (Inr (?L, h'))"
    "list_inv h' ?L ?zs"
    "\<forall>a. a < ?L \<longrightarrow> nodes h' a = nodes h a \<and> size_m h' a = size_m h a"
    by blast
  have m: "map snd ?zs = vs" by (simp del: upt_Suc)
  then have len: "length ?zs = length vs" by (metis length_map)
  have "traverse h' ?L = Some (Inr vs)"
    using traverse_list [OF list_inv_chain [OF h'(2)]] by (simp only: m)
  moreover have "GetSize h' ?L = Inr (of_nat (length vs))"
    using GetSize_list [OF h'(2)] by (simp only: len)
  ultimately show ?thesis using h' m by blast
qed

theorem init_builds_in_order_witness:
  "\<not> copy_throws T_nat 1 \<and> \<not> copy_throws T_nat 2 \<and> \<not> copy_throws T_nat 3
   \<and> (\<exists>this h'. SingleLinkedList_init T_nat [1, 2, 3] empty_heap = Some (Inr (this, h'))
          \<and> traverse h' this = Some (Inr [1, 2, 3])
          \<and> GetSize h' this = Inr 3)"
proof -
  have nt: "\<forall>v\<in>set [1, 2, 3]. \<not> copy_throws T_nat v" by (simp add: T_nat_def)
  from init_builds_in_order [OF nt, of empty_heap]
  have "\<exists>this h'. SingleLinkedList_init T_nat [1, 2, 3] empty_heap = Some (Inr (this, h'))
          \<and> traverse h' this = Some (Inr [1, 2, 3])
          \<and> GetSize h' this = Inr 3"
    by simp blast
  with nt show ?thesis by simp
qed

section \<open>The invariant of the memory\<close>

lemma list_inv_is_list: "list_inv h l axs \<Longrightarrow> is_list h l"
  by (simp add: list_inv_def is_list_def)

lemma list_inv_unique: "list_inv h l axs \<Longrightarrow> list_inv h l bxs \<Longrightarrow> axs = bxs"
  by (auto simp: list_inv_def list_chain_def split: option.splits dest: chain_unique)

lemma footprint_below:
  "list_inv h l axs \<Longrightarrow> a \<in> footprint l axs \<Longrightarrow> a < length (mem h)"
  using list_chain_below [of h l axs a] by (simp add: footprint_def list_inv_def)

lemma list_inv_frame:
  assumes "list_inv h l axs"
    and "\<And>a. a \<in> footprint l axs \<Longrightarrow> nodes h' a = nodes h a"
    and "size_m h' l = size_m h l"
  shows "list_inv h' l axs"
proof -
  from assms(1) obtain hn where hn: "nodes h l = Some hn" "chain (nodes h) (next_node hn) axs"
    and s: "size_m h l = Some (of_nat (length axs))"
    by (auto simp: list_inv_def list_chain_def split: option.splits)
  have "chain (nodes h') (next_node hn) axs = chain (nodes h) (next_node hn) axs"
    by (rule chain_cong) (simp add: assms(2) footprint_def)
  moreover have "nodes h' l = Some hn" using assms(2) [of l] hn(1) by (simp add: footprint_def)
  ultimately show ?thesis using hn(2) s assms(3)
    by (simp add: list_inv_def list_chain_def)
qed

lemma heap_inv_disjoint:
  assumes "heap_inv h" and "list_inv h l axs" and "list_inv h l' axs'" and "l \<noteq> l'"
  shows "footprint l axs \<inter> footprint l' axs' = {}"
proof -
  from assms(1) obtain ch where ch: "\<forall>l. is_list h l \<longrightarrow> list_inv h l (ch l)"
    "\<forall>l l'. is_list h l \<and> is_list h l' \<and> l \<noteq> l'
       \<longrightarrow> footprint l (ch l) \<inter> footprint l' (ch l') = {}"
    by (auto simp: heap_inv_def)
  have "ch l = axs" using ch(1) assms(2) list_inv_is_list list_inv_unique by blast
  moreover have "ch l' = axs'" using ch(1) assms(3) list_inv_is_list list_inv_unique by blast
  ultimately show ?thesis
    using ch(2) assms(2,3,4) list_inv_is_list by blast
qed

lemma heap_inv_list:
  assumes "heap_inv h" and "is_list h l"
  shows "\<exists>axs. list_inv h l axs"
  using assms by (auto simp: heap_inv_def)

lemma chain_nodes_not_lists:
  assumes "heap_inv h" and "list_inv h l axs" and "a \<in> fst ` set axs"
  shows "size_m h a = None"
proof (rule ccontr)
  assume "size_m h a \<noteq> None"
  then have "is_list h a" by (simp add: is_list_def)
  from heap_inv_list [OF assms(1) this] obtain bxs where b: "list_inv h a bxs" by blast
  have "a \<noteq> l"
    using list_chain_sentinel_notin [OF list_inv_chain [OF assms(2)]] assms(3) by auto
  from heap_inv_disjoint [OF assms(1) b assms(2) this] assms(3) show False
    by (auto simp: footprint_def)
qed

lemma heap_inv_preserved:
  assumes inv: "heap_inv h"
    and changed: "\<forall>l\<in>S. list_inv h' l (nch l)
                    \<and> footprint l (nch l) \<subseteq> M \<union> {a. length (mem h) \<le> a}"
    and disj: "\<forall>l\<in>S. \<forall>l'\<in>S. l \<noteq> l' \<longrightarrow> footprint l (nch l) \<inter> footprint l' (nch l') = {}"
    and fr: "\<forall>a. a < length (mem h) \<and> a \<notin> M \<longrightarrow> nodes h' a = nodes h a \<and> size_m h' a = size_m h a"
    and lists: "\<forall>l. is_list h' l \<and> l \<notin> S \<longrightarrow> l < length (mem h) \<and> l \<notin> M"
    and whole: "\<forall>l axs. list_inv h l axs \<and> l \<notin> M \<longrightarrow> footprint l axs \<inter> M = {}"
  shows "heap_inv h' \<and> (\<forall>l axs. list_inv h l axs \<and> l \<notin> M \<longrightarrow> list_inv h' l axs)"
proof -
  from inv obtain ch where ch: "\<forall>l. is_list h l \<longrightarrow> list_inv h l (ch l)"
    "\<forall>l l'. is_list h l \<and> is_list h l' \<and> l \<noteq> l'
       \<longrightarrow> footprint l (ch l) \<inter> footprint l' (ch l') = {}"
    by (auto simp: heap_inv_def)
  have kept: "list_inv h' l axs" if "list_inv h l axs" "l \<notin> M" for l axs
  proof (rule list_inv_frame [OF that(1)])
    have d: "footprint l axs \<inter> M = {}" using whole that by blast
    show "nodes h' a = nodes h a" if "a \<in> footprint l axs" for a
      using fr footprint_below [OF \<open>list_inv h l axs\<close> that] d that by blast
    have "l \<in> footprint l axs" by (simp add: footprint_def)
    then show "size_m h' l = size_m h l"
      using fr footprint_below [OF \<open>list_inv h l axs\<close>] d by blast
  qed
  have old: "is_list h l \<and> l \<notin> M \<and> list_inv h l (ch l) \<and> footprint l (ch l) \<inter> M = {}"
    if "is_list h' l" "l \<notin> S" for l
  proof -
    from lists that have l: "l < length (mem h)" "l \<notin> M" by auto
    with fr have "size_m h' l = size_m h l" by blast
    with that(1) have "is_list h l" by (simp add: is_list_def)
    with ch(1) have "list_inv h l (ch l)" by blast
    with whole l \<open>is_list h l\<close> show ?thesis by blast
  qed
  let ?ch = "\<lambda>l. if l \<in> S then nch l else ch l"
  have a: "list_inv h' l (?ch l)" if "is_list h' l" for l
  proof (cases "l \<in> S")
    case True
    with changed show ?thesis by simp
  next
    case False
    from old [OF that False] kept show ?thesis using False by simp
  qed
  have b: "footprint l (?ch l) \<inter> footprint l' (?ch l') = {}"
    if "is_list h' l" "is_list h' l'" "l \<noteq> l'" for l l'
  proof -
    have mixed: "footprint k (nch k) \<inter> footprint k' (ch k') = {}"
      if "k \<in> S" "is_list h' k'" "k' \<notin> S" for k k'
    proof -
      from old [OF that(2,3)] have o: "list_inv h k' (ch k')" "footprint k' (ch k') \<inter> M = {}"
        by simp_all
      have "footprint k' (ch k') \<subseteq> {a. a < length (mem h)}"
        using footprint_below [OF o(1)] by blast
      moreover have "footprint k (nch k) \<subseteq> M \<union> {a. length (mem h) \<le> a}"
        using changed that(1) by blast
      ultimately show ?thesis using o(2) by fastforce
    qed
    show ?thesis
    proof (cases "l \<in> S"; cases "l' \<in> S")
      assume "l \<in> S" "l' \<in> S"
      with disj that(3) show ?thesis by simp
    next
      assume "l \<in> S" "l' \<notin> S"
      with mixed [of l l'] that(2) show ?thesis by simp
    next
      assume "l \<notin> S" "l' \<in> S"
      with mixed [of l' l] that(1) show ?thesis by (simp add: Int_commute)
    next
      assume "l \<notin> S" "l' \<notin> S"
      with old [OF that(1)] old [OF that(2)] ch(2) that(3) show ?thesis by simp
    qed
  qed
  have "heap_inv h'"
    unfolding heap_inv_def using a b by (intro exI [of _ ?ch]) blast
  with kept show ?thesis by blast
qed


lemma heap_inv_one:
  assumes inv: "heap_inv h" and l: "list_inv h l axs" and l': "list_inv h' l axs'"
    and sub: "fst ` set axs' \<subseteq> fst ` set axs \<union> {a. length (mem h) \<le> a}"
    and fr: "\<forall>a. a < length (mem h) \<and> a \<notin> footprint l axs
               \<longrightarrow> nodes h' a = nodes h a \<and> size_m h' a = size_m h a"
    and lists: "\<forall>a. a \<noteq> l \<and> size_m h' a \<noteq> None \<longrightarrow> size_m h a \<noteq> None"
  shows "heap_inv h' \<and> (\<forall>k kxs. list_inv h k kxs \<and> k \<noteq> l \<longrightarrow> list_inv h' k kxs)"
proof -
  have notin: "k \<notin> footprint l axs" if "is_list h k" "k \<noteq> l" for k
  proof
    assume "k \<in> footprint l axs"
    with that(2) have "k \<in> fst ` set axs" by (simp add: footprint_def)
    from chain_nodes_not_lists [OF inv l this] that(1) show False by (simp add: is_list_def)
  qed
  have "heap_inv h' \<and> (\<forall>k kxs. list_inv h k kxs \<and> k \<notin> footprint l axs \<longrightarrow> list_inv h' k kxs)"
  proof (rule heap_inv_preserved [OF inv, where S = "{l}" and nch = "\<lambda>_. axs'"])
    show "\<forall>k\<in>{l}. list_inv h' k axs'
            \<and> footprint k axs' \<subseteq> footprint l axs \<union> {a. length (mem h) \<le> a}"
      using l' sub by (auto simp: footprint_def)
    show "\<forall>k\<in>{l}. \<forall>k'\<in>{l}. k \<noteq> k' \<longrightarrow> footprint k axs' \<inter> footprint k' axs' = {}"
      by simp
    show "\<forall>a. a < length (mem h) \<and> a \<notin> footprint l axs
            \<longrightarrow> nodes h' a = nodes h a \<and> size_m h' a = size_m h a"
      by (rule fr)
    show "\<forall>k. is_list h' k \<and> k \<notin> {l} \<longrightarrow> k < length (mem h) \<and> k \<notin> footprint l axs"
    proof (intro allI impI)
      fix k assume k: "is_list h' k \<and> k \<notin> {l}"
      then have "size_m h k \<noteq> None" using lists by (simp add: is_list_def)
      then have "is_list h k" "k < length (mem h)"
        using size_m_live [of h k] by (auto simp: is_list_def)
      with notin k show "k < length (mem h) \<and> k \<notin> footprint l axs" by simp
    qed
    show "\<forall>k kxs. list_inv h k kxs \<and> k \<notin> footprint l axs
            \<longrightarrow> footprint k kxs \<inter> footprint l axs = {}"
    proof (intro allI impI)
      fix k kxs assume k: "list_inv h k kxs \<and> k \<notin> footprint l axs"
      then have "k \<noteq> l" by (auto simp: footprint_def)
      with heap_inv_disjoint [OF inv _ l] k show "footprint k kxs \<inter> footprint l axs = {}"
        by blast
    qed
  qed
  moreover have "k \<notin> footprint l axs" if "list_inv h k kxs" "k \<noteq> l" for k kxs
    using notin list_inv_is_list that by blast
  ultimately show ?thesis by blast
qed

lemma heap_inv_fresh:
  assumes inv: "heap_inv h"
    and fr: "\<forall>a. a < length (mem h) \<longrightarrow> nodes h' a = nodes h a \<and> size_m h' a = size_m h a"
    and new: "\<forall>a. length (mem h) \<le> a \<and> size_m h' a \<noteq> None
                \<longrightarrow> a = length (mem h) \<and> list_inv h' a zs
                    \<and> fst ` set zs \<subseteq> {b. length (mem h) \<le> b}"
  shows "heap_inv h' \<and> (\<forall>k kxs. list_inv h k kxs \<longrightarrow> list_inv h' k kxs)"
proof -
  let ?S = "{a. length (mem h) \<le> a \<and> size_m h' a \<noteq> None}"
  have "heap_inv h' \<and> (\<forall>k kxs. list_inv h k kxs \<and> k \<notin> {} \<longrightarrow> list_inv h' k kxs)"
  proof (rule heap_inv_preserved [OF inv, where S = ?S and nch = "\<lambda>_. zs"])
    show "\<forall>k\<in>?S. list_inv h' k zs \<and> footprint k zs \<subseteq> {} \<union> {a. length (mem h) \<le> a}"
      using new by (auto simp: footprint_def)
    show "\<forall>k\<in>?S. \<forall>k'\<in>?S. k \<noteq> k' \<longrightarrow> footprint k zs \<inter> footprint k' zs = {}"
    proof (intro ballI impI)
      fix k k' assume "k \<in> ?S" "k' \<in> ?S" "k \<noteq> k'"
      moreover from \<open>k \<in> ?S\<close> new have "k = length (mem h)" by blast
      moreover from \<open>k' \<in> ?S\<close> new have "k' = length (mem h)" by blast
      ultimately show "footprint k zs \<inter> footprint k' zs = {}" by simp
    qed
    show "\<forall>a. a < length (mem h) \<and> a \<notin> {} \<longrightarrow> nodes h' a = nodes h a \<and> size_m h' a = size_m h a"
      using fr by simp
    show "\<forall>k. is_list h' k \<and> k \<notin> ?S \<longrightarrow> k < length (mem h) \<and> k \<notin> {}"
      by (auto simp: is_list_def)
    show "\<forall>k kxs. list_inv h k kxs \<and> k \<notin> {} \<longrightarrow> footprint k kxs \<inter> {} = {}"
      by simp
  qed
  then show ?thesis by simp
qed

section \<open>Positions reached by incrementing\<close>

lemma advance_chain:
  "chain (nodes h) p axs \<Longrightarrow>
   advance h p n = (if n < length axs then Inr (Some (fst (axs ! n)))
                    else if n = length axs then Inr None else Inl Undefined)"
proof (induction n arbitrary: p axs)
  case 0
  from chain_start [OF 0] show ?case by (cases axs) simp_all
next
  case (Suc n)
  show ?case
  proof (cases axs)
    case Nil
    with Suc.prems show ?thesis by (simp add: iter_incr_def)
  next
    case (Cons ax rest)
    with Suc.prems obtain k where k: "p = Some (fst ax)" "nodes h (fst ax) = Some k"
      "chain (nodes h) (next_node k) rest"
      by (auto simp: chain_Cons)
    from Suc.IH [OF k(3)] k(1,2) Cons show ?thesis by (simp add: iter_incr_def)
  qed
qed

lemma advance_list:
  assumes "list_inv h l axs"
  shows "advance h (before_begin l) n =
           (if n \<le> length axs then Inr (Some ((l # map fst axs) ! n))
            else if n = Suc (length axs) then Inr None else Inl Undefined)"
proof -
  from assms obtain hn where "nodes h l = Some hn"
    "chain (nodes h) (Some l) ((l, node_value hn) # axs)"
    by (auto simp: list_inv_def list_chain_rooted)
  from advance_chain [OF this(2), of n] show ?thesis
    by (auto simp: before_begin_def rooted_fst less_Suc_eq_le)
qed

lemma chain_end_link:
  assumes "chain m p (axs @ [(a, x)])"
  shows "\<exists>n. m a = Some n \<and> next_node n = None"
  using assms by (induction axs arbitrary: p) (auto simp: chain_Cons)

lemma list_last_link:
  assumes "list_inv h l axs"
  shows "\<exists>n. nodes h ((l # map fst axs) ! length axs) = Some n \<and> next_node n = None"
proof -
  from assms obtain hn where hn: "nodes h l = Some hn"
    "chain (nodes h) (Some l) ((l, node_value hn) # axs)"
    by (auto simp: list_inv_def list_chain_rooted)
  let ?full = "(l, node_value hn) # axs"
  have "?full \<noteq> []" by simp
  then have "?full = butlast ?full @ [last ?full]" by (rule append_butlast_last_id [symmetric])
  then obtain a x where e: "?full = butlast ?full @ [(a, x)]" and la: "last ?full = (a, x)"
    by (cases "last ?full") auto
  have "last ?full = ?full ! (length ?full - 1)" by (rule last_conv_nth) simp
  then have "?full ! length axs = (a, x)" using la by simp
  then have "a = fst (?full ! length axs)" by simp
  then have a: "a = (l # map fst axs) ! length axs" by (simp add: rooted_fst)
  have "chain (nodes h) (Some l) (butlast ?full @ [(a, x)])"
    using hn(2) e by metis
  from chain_end_link [OF this] a show ?thesis by simp
qed


section \<open>Every operation keeps the invariant of the memory\<close>

lemma insert_step:
  assumes inv: "heap_inv h" and l: "list_inv h l axs" and i: "i \<le> length axs"
    and nt: "\<not> copy_throws T v"
  shows "\<exists>h'. InsertAfter T l (Some ((l # map fst axs) ! i)) v h = Inr (Some (length (mem h)), h')
           \<and> list_inv h' l (take i axs @ (length (mem h), v) # drop i axs)
           \<and> heap_inv h' \<and> (\<forall>k kxs. list_inv h k kxs \<and> k \<noteq> l \<longrightarrow> list_inv h' k kxs)"
proof (rule InsertAfter_list [OF l i refl nt])
  let ?p = "(l # map fst axs) ! i" and ?L = "length (mem h)"
  let ?axs' = "take i axs @ (?L, v) # drop i axs"
  fix h' pn
  assume r: "InsertAfter T l (Some ?p) v h = Inr (Some ?L, h')"
    and l': "list_inv h' l ?axs'"
    and n: "nodes h' = (nodes h)(?p \<mapsto> pn\<lparr>next_node := Some ?L\<rparr>,
                              ?L \<mapsto> \<lparr>node_value = v, next_node = next_node pn\<rparr>)"
    and sz: "size_m h' = (size_m h)(l \<mapsto> of_nat (length axs) + 1)"
  have "i < length (l # map fst axs)" using i by simp
  then have "?p \<in> set (l # map fst axs)" by (rule nth_mem)
  then have p: "?p \<in> footprint l axs" by (simp add: footprint_def)
  have sub: "fst ` set ?axs' \<subseteq> fst ` set axs \<union> {a. ?L \<le> a}"
    using set_take_subset [of i axs] set_drop_subset [of i axs] by auto
  have fr: "\<forall>a. a < ?L \<and> a \<notin> footprint l axs
              \<longrightarrow> nodes h' a = nodes h a \<and> size_m h' a = size_m h a"
    using p by (auto simp: n sz footprint_def)
  have lists: "\<forall>a. a \<noteq> l \<and> size_m h' a \<noteq> None \<longrightarrow> size_m h a \<noteq> None"
    by (simp add: sz)
  from heap_inv_one [OF inv l l' sub fr lists] r l' show ?thesis by blast
qed

lemma erase_step:
  assumes inv: "heap_inv h" and l: "list_inv h l axs" and i: "i < length axs"
  shows "\<exists>h' it. EraseAfter l (Some ((l # map fst axs) ! i)) h = Inr (it, h')
           \<and> list_inv h' l (take i axs @ drop (Suc i) axs)
           \<and> heap_inv h' \<and> (\<forall>k kxs. list_inv h k kxs \<and> k \<noteq> l \<longrightarrow> list_inv h' k kxs)"
proof (rule EraseAfter_list [OF l i refl])
  let ?p = "(l # map fst axs) ! i" and ?t = "fst (axs ! i)"
  let ?axs' = "take i axs @ drop (Suc i) axs"
  fix h' pn tn
  assume r: "EraseAfter l (Some ?p) h =
               Inr (if Suc i < length axs then Some (fst (axs ! Suc i)) else None, h')"
    and l': "list_inv h' l ?axs'"
    and n: "nodes h' = ((nodes h)(?p \<mapsto> pn\<lparr>next_node := next_node tn\<rparr>))(?t := None)"
    and sz: "size_m h' = ((size_m h)(?t := None))(l \<mapsto> of_nat (length axs) - 1)"
  have "i < length (l # map fst axs)" using i by simp
  then have "?p \<in> set (l # map fst axs)" by (rule nth_mem)
  then have p: "?p \<in> footprint l axs" by (simp add: footprint_def)
  have "axs ! i \<in> set axs" using i by (rule nth_mem)
  then have t: "?t \<in> footprint l axs" by (simp add: footprint_def)
  have sub: "fst ` set ?axs' \<subseteq> fst ` set axs \<union> {a. length (mem h) \<le> a}"
    using set_take_subset [of i axs] set_drop_subset [of "Suc i" axs] by auto
  have fr: "\<forall>a. a < length (mem h) \<and> a \<notin> footprint l axs
              \<longrightarrow> nodes h' a = nodes h a \<and> size_m h' a = size_m h a"
    using p t by (auto simp: n sz footprint_def)
  have lists: "\<forall>a. a \<noteq> l \<and> size_m h' a \<noteq> None \<longrightarrow> size_m h a \<noteq> None"
    by (auto simp: sz split: if_splits)
  from heap_inv_one [OF inv l l' sub fr lists] r l' show ?thesis by blast
qed

lemma clear_step:
  assumes inv: "heap_inv h" and l: "list_inv h l axs"
  shows "\<exists>h'. Clear l h = Some (Inr ((), h')) \<and> list_inv h' l []
           \<and> heap_inv h' \<and> (\<forall>k kxs. list_inv h k kxs \<and> k \<noteq> l \<longrightarrow> list_inv h' k kxs)"
proof -
  from Clear_list [OF list_inv_chain [OF l] list_inv_size [OF l]]
  obtain h' where h': "Clear l h = Some (Inr ((), h'))" "list_chain h' l []"
    "\<forall>a. nodes h' a = (if a \<in> fst ` set axs then None
                        else if a = l then map_option (\<lambda>n. n\<lparr>next_node := None\<rparr>) (nodes h l)
                        else nodes h a)"
    "\<forall>a. size_m h' a = (if a \<in> fst ` set axs then None
                         else if a = l then Some (of_nat (length axs) - of_nat (length axs))
                         else size_m h a)"
    by blast
  have "l \<notin> fst ` set axs" by (rule list_chain_sentinel_notin [OF list_inv_chain [OF l]])
  then have "size_m h' l = Some 0" using h'(4) by simp
  with h'(2) have l': "list_inv h' l []" by (simp add: list_inv_def)
  have sub: "fst ` set [] \<subseteq> fst ` set axs \<union> {a. length (mem h) \<le> a}" by simp
  have fr: "\<forall>a. a < length (mem h) \<and> a \<notin> footprint l axs
              \<longrightarrow> nodes h' a = nodes h a \<and> size_m h' a = size_m h a"
    using h'(3,4) by (simp add: footprint_def)
  have lists: "\<forall>a. a \<noteq> l \<and> size_m h' a \<noteq> None \<longrightarrow> size_m h a \<noteq> None"
    using h'(4) by (auto split: if_splits)
  from heap_inv_one [OF inv l l' sub fr lists] h'(1) l' show ?thesis by blast
qed

lemma default_step:
  assumes inv: "heap_inv h"
  shows "\<exists>h'. SingleLinkedList_default T h = (length (mem h), h')
           \<and> list_inv h' (length (mem h)) []
           \<and> heap_inv h' \<and> (\<forall>k kxs. list_inv h k kxs \<longrightarrow> list_inv h' k kxs)"
proof (rule alloc_list_inv [of T h])
  let ?L = "length (mem h)"
  fix h'
  assume a: "alloc_list T h = (?L, h')"
    and n: "nodes h' = (nodes h)(?L \<mapsto> \<lparr>node_value = default_ctor T, next_node = None\<rparr>)"
    and s: "size_m h' = (size_m h)(?L \<mapsto> 0)"
    and l': "list_inv h' ?L []"
  have fr: "\<forall>a. a < ?L \<longrightarrow> nodes h' a = nodes h a \<and> size_m h' a = size_m h a"
    by (simp add: n s)
  have new: "\<forall>a. ?L \<le> a \<and> size_m h' a \<noteq> None
               \<longrightarrow> a = ?L \<and> list_inv h' a [] \<and> fst ` set [] \<subseteq> {b. ?L \<le> b}"
    using l' size_m_None_beyond [of h] by (auto simp: s)
  from heap_inv_fresh [OF inv fr new] a l' show ?thesis
    by (simp add: SingleLinkedList_default_def)
qed

lemma init_step_returns:
  assumes inv: "heap_inv h" and nt: "\<forall>v\<in>set vs. \<not> copy_throws T v"
  shows "\<exists>h' zs. SingleLinkedList_init T vs h = Some (Inr (length (mem h), h'))
           \<and> list_inv h' (length (mem h)) zs \<and> map snd zs = vs
           \<and> fst ` set zs \<subseteq> {b. length (mem h) \<le> b}
           \<and> heap_inv h' \<and> (\<forall>k kxs. list_inv h k kxs \<longrightarrow> list_inv h' k kxs)"
proof -
  let ?L = "length (mem h)"
  let ?zs = "zip [?L + 2 ..< ?L + 2 + length vs] vs"
  from init_returns [OF nt, of h] obtain h' where h':
    "SingleLinkedList_init T vs h = Some (Inr (?L, h'))"
    "list_inv h' ?L ?zs"
    "\<forall>a. a < ?L \<longrightarrow> nodes h' a = nodes h a \<and> size_m h' a = size_m h a"
    "\<forall>a. ?L < a \<longrightarrow> size_m h' a = None"
    by blast
  have m: "map snd ?zs = vs" by (simp del: upt_Suc)
  have above: "fst ` set ?zs \<subseteq> {b. ?L \<le> b}"
    using fst_zip_upt [of vs "length vs" "?L + 2"] by auto
  have new: "\<forall>a. ?L \<le> a \<and> size_m h' a \<noteq> None
               \<longrightarrow> a = ?L \<and> list_inv h' a ?zs \<and> fst ` set ?zs \<subseteq> {b. ?L \<le> b}"
  proof (intro allI impI)
    fix a assume a: "?L \<le> a \<and> size_m h' a \<noteq> None"
    then have "a = ?L" using h'(4) by (cases "a = ?L") auto
    with h'(2) above show "a = ?L \<and> list_inv h' a ?zs \<and> fst ` set ?zs \<subseteq> {b. ?L \<le> b}"
      by simp
  qed
  from heap_inv_fresh [OF inv h'(3) new] h'(1,2) m above show ?thesis by blast
qed

lemma init_step_throws:
  assumes inv: "heap_inv h" and nt: "\<forall>v\<in>set good. \<not> copy_throws T v" and bad: "copy_throws T bad"
  shows "\<exists>h'. SingleLinkedList_init T (good @ bad # rest) h = Some (Inl (Thrown h'))
           \<and> (\<forall>a. a < length (mem h) \<longrightarrow> nodes h' a = nodes h a \<and> size_m h' a = size_m h a)
           \<and> heap_inv h' \<and> (\<forall>k kxs. list_inv h k kxs \<longrightarrow> list_inv h' k kxs)"
proof -
  let ?L = "length (mem h)"
  from init_throws [OF nt bad, of rest h] obtain h' where h':
    "SingleLinkedList_init T (good @ bad # rest) h = Some (Inl (Thrown h'))"
    "\<forall>a. a < ?L \<longrightarrow> nodes h' a = nodes h a \<and> size_m h' a = size_m h a"
    "\<forall>a. ?L \<le> a \<longrightarrow> nodes h' a = None \<and> size_m h' a = None"
    by blast
  have new: "\<forall>a. ?L \<le> a \<and> size_m h' a \<noteq> None
               \<longrightarrow> a = ?L \<and> list_inv h' a ([]::(addr \<times> 'a) list)
                   \<and> fst ` set ([]::(addr \<times> 'a) list) \<subseteq> {b. ?L \<le> b}"
  proof (intro allI impI)
    fix a assume a: "?L \<le> a \<and> size_m h' a \<noteq> None"
    with h'(3) have False by auto
    then show "a = ?L \<and> list_inv h' a ([]::(addr \<times> 'a) list)
                   \<and> fst ` set ([]::(addr \<times> 'a) list) \<subseteq> {b. ?L \<le> b}" ..
  qed
  have hi: "heap_inv h'"
    by (rule conjunct1 [OF heap_inv_fresh [OF inv h'(2) new]])
  have kept: "\<forall>k kxs. list_inv h k kxs \<longrightarrow> list_inv h' k kxs"
    by (rule conjunct2 [OF heap_inv_fresh [OF inv h'(2) new]])
  show ?thesis
    by (intro exI [of _ h'] conjI) (rule h'(1) h'(2) hi kept)+
qed

lemma dtor_step:
  assumes inv: "heap_inv h" and l: "list_inv h l axs"
  shows "\<exists>h'. SingleLinkedList_dtor l h = Some (Inr ((), h')) \<and> \<not> is_list h' l
           \<and> heap_inv h' \<and> (\<forall>k kxs. list_inv h k kxs \<and> k \<noteq> l \<longrightarrow> list_inv h' k kxs)"
proof -
  from dtor_list [OF list_inv_chain [OF l] list_inv_size [OF l]]
  obtain h' where h': "SingleLinkedList_dtor l h = Some (Inr ((), h'))"
    "\<forall>a. nodes h' a = (if a \<in> insert l (fst ` set axs) then None else nodes h a)"
    "\<forall>a. size_m h' a = (if a \<in> insert l (fst ` set axs) then None else size_m h a)"
    by blast
  have gone: "\<not> is_list h' l" using h'(3) by (simp add: is_list_def)
  have notin: "k \<notin> footprint l axs" if "is_list h k" "k \<noteq> l" for k
  proof
    assume "k \<in> footprint l axs"
    with that(2) have "k \<in> fst ` set axs" by (simp add: footprint_def)
    from chain_nodes_not_lists [OF inv l this] that(1) show False by (simp add: is_list_def)
  qed
  have "heap_inv h' \<and> (\<forall>k kxs. list_inv h k kxs \<and> k \<notin> footprint l axs \<longrightarrow> list_inv h' k kxs)"
  proof (rule heap_inv_preserved [OF inv, where S = "{}" and nch = "\<lambda>_. []"])
    show "\<forall>k\<in>{}. list_inv h' k [] \<and> footprint k [] \<subseteq> footprint l axs \<union> {a. length (mem h) \<le> a}"
      by simp
    show "\<forall>k\<in>{}. \<forall>k'\<in>{}. k \<noteq> k' \<longrightarrow> footprint k [] \<inter> footprint k' [] = {}" by simp
    show "\<forall>a. a < length (mem h) \<and> a \<notin> footprint l axs
            \<longrightarrow> nodes h' a = nodes h a \<and> size_m h' a = size_m h a"
      using h'(2,3) by (simp add: footprint_def)
    show "\<forall>k. is_list h' k \<and> k \<notin> {} \<longrightarrow> k < length (mem h) \<and> k \<notin> footprint l axs"
    proof (intro allI impI)
      fix k assume "is_list h' k \<and> k \<notin> {}"
      then have "size_m h' k \<noteq> None" by (simp add: is_list_def)
      with h'(3) have "k \<notin> insert l (fst ` set axs)" "size_m h k \<noteq> None"
        by (auto split: if_splits)
      then show "k < length (mem h) \<and> k \<notin> footprint l axs"
        using size_m_live [of h k] by (auto simp: footprint_def)
    qed
    show "\<forall>k kxs. list_inv h k kxs \<and> k \<notin> footprint l axs
            \<longrightarrow> footprint k kxs \<inter> footprint l axs = {}"
    proof (intro allI impI)
      fix k kxs assume k: "list_inv h k kxs \<and> k \<notin> footprint l axs"
      then have "k \<noteq> l" by (auto simp: footprint_def)
      with heap_inv_disjoint [OF inv _ l] k show "footprint k kxs \<inter> footprint l axs = {}"
        by blast
    qed
  qed
  moreover have "k \<notin> footprint l axs" if "list_inv h k kxs" "k \<noteq> l" for k kxs
    using notin list_inv_is_list that by blast
  ultimately show ?thesis using h'(1) gone by blast
qed


lemma swap_step:
  assumes inv: "heap_inv h" and l: "list_inv h l axs" and l': "list_inv h l' axs'"
    and ne: "l \<noteq> l'"
  shows "\<exists>h'. swap l l' h = Inr ((), h') \<and> list_inv h' l axs' \<and> list_inv h' l' axs
           \<and> heap_inv h'
           \<and> (\<forall>k kxs. list_inv h k kxs \<and> k \<noteq> l \<and> k \<noteq> l' \<longrightarrow> list_inv h' k kxs)"
proof -
  from l obtain hn where hn: "nodes h l = Some hn" "chain (nodes h) (next_node hn) axs"
    and s: "size_m h l = Some (of_nat (length axs))"
    by (auto simp: list_inv_def list_chain_def split: option.splits)
  from l' obtain hn' where hn': "nodes h l' = Some hn'" "chain (nodes h) (next_node hn') axs'"
    and s': "size_m h l' = Some (of_nat (length axs'))"
    by (auto simp: list_inv_def list_chain_def split: option.splits)
  have d: "footprint l axs \<inter> footprint l' axs' = {}"
    by (rule heap_inv_disjoint [OF inv l l' ne])
  have own: "l \<notin> fst ` set axs" "l' \<notin> fst ` set axs'"
    using list_chain_sentinel_notin list_inv_chain l l' by blast+
  have cross: "l \<notin> fst ` set axs'" "l' \<notin> fst ` set axs"
    using d by (auto simp: footprint_def)
  show ?thesis
  proof (rule swap_effect [OF hn(1) hn'(1) s s' ne])
    fix h'
    assume r: "swap l l' h = Inr ((), h')"
      and n: "nodes h' = (nodes h)(l \<mapsto> hn\<lparr>next_node := next_node hn'\<rparr>,
                                l' \<mapsto> hn'\<lparr>next_node := next_node hn\<rparr>)"
      and sz: "size_m h' = (size_m h)(l \<mapsto> of_nat (length axs'), l' \<mapsto> of_nat (length axs))"
    have "chain (nodes h') (next_node hn') axs' = chain (nodes h) (next_node hn') axs'"
    proof (rule chain_cong)
      fix a assume "a \<in> fst ` set axs'"
      with own cross have "a \<noteq> l" "a \<noteq> l'" by auto
      then show "nodes h' a = nodes h a" by (simp add: n)
    qed
    then have a: "list_inv h' l axs'"
      using hn'(2) ne by (simp add: list_inv_def list_chain_def n sz)
    have "chain (nodes h') (next_node hn) axs = chain (nodes h) (next_node hn) axs"
    proof (rule chain_cong)
      fix a assume "a \<in> fst ` set axs"
      with own cross have "a \<noteq> l" "a \<noteq> l'" by auto
      then show "nodes h' a = nodes h a" by (simp add: n)
    qed
    then have b: "list_inv h' l' axs"
      using hn(2) ne by (simp add: list_inv_def list_chain_def n sz)
    let ?M = "footprint l axs \<union> footprint l' axs'"
    let ?nch = "\<lambda>k. if k = l then axs' else axs"
    have notin: "k \<notin> ?M" if "is_list h k" "k \<noteq> l" "k \<noteq> l'" for k
    proof
      assume "k \<in> ?M"
      with that(2,3) have "k \<in> fst ` set axs \<or> k \<in> fst ` set axs'" by (auto simp: footprint_def)
      then show False
      proof
        assume "k \<in> fst ` set axs"
        from chain_nodes_not_lists [OF inv l this] that(1) show False by (simp add: is_list_def)
      next
        assume "k \<in> fst ` set axs'"
        from chain_nodes_not_lists [OF inv l' this] that(1) show False by (simp add: is_list_def)
      qed
    qed
    have "heap_inv h' \<and> (\<forall>k kxs. list_inv h k kxs \<and> k \<notin> ?M \<longrightarrow> list_inv h' k kxs)"
    proof (rule heap_inv_preserved [OF inv, where S = "{l, l'}" and nch = ?nch])
      show "\<forall>k\<in>{l, l'}. list_inv h' k (?nch k)
              \<and> footprint k (?nch k) \<subseteq> ?M \<union> {a. length (mem h) \<le> a}"
        using a b ne by (auto simp: footprint_def)
      show "\<forall>k\<in>{l, l'}. \<forall>k'\<in>{l, l'}. k \<noteq> k'
              \<longrightarrow> footprint k (?nch k) \<inter> footprint k' (?nch k') = {}"
        using d own cross ne by (auto simp: footprint_def)
      show "\<forall>a. a < length (mem h) \<and> a \<notin> ?M
              \<longrightarrow> nodes h' a = nodes h a \<and> size_m h' a = size_m h a"
        by (auto simp: n sz footprint_def)
      show "\<forall>k. is_list h' k \<and> k \<notin> {l, l'} \<longrightarrow> k < length (mem h) \<and> k \<notin> ?M"
      proof (intro allI impI)
        fix k assume k: "is_list h' k \<and> k \<notin> {l, l'}"
        then have "size_m h k \<noteq> None" by (auto simp: is_list_def sz)
        then have "is_list h k" "k < length (mem h)"
          using size_m_live [of h k] by (auto simp: is_list_def)
        with notin k show "k < length (mem h) \<and> k \<notin> ?M" by simp
      qed
      show "\<forall>k kxs. list_inv h k kxs \<and> k \<notin> ?M \<longrightarrow> footprint k kxs \<inter> ?M = {}"
      proof (intro allI impI)
        fix k kxs assume k: "list_inv h k kxs \<and> k \<notin> ?M"
        then have "k \<noteq> l" "k \<noteq> l'" by (auto simp: footprint_def)
        with heap_inv_disjoint [OF inv _ l] heap_inv_disjoint [OF inv _ l'] k
        show "footprint k kxs \<inter> ?M = {}" by blast
      qed
    qed
    moreover have "k \<notin> ?M" if "list_inv h k kxs" "k \<noteq> l" "k \<noteq> l'" for k kxs
      using notin list_inv_is_list that by blast
    ultimately have "heap_inv h'"
      and "\<forall>k kxs. list_inv h k kxs \<and> k \<noteq> l \<and> k \<noteq> l' \<longrightarrow> list_inv h' k kxs"
      by blast+
    with r a b show ?thesis by blast
  qed
qed

lemma swap_self_step:
  assumes inv: "heap_inv h" and l: "list_inv h l axs"
  shows "\<exists>h'. swap l l h = Inr ((), h') \<and> heap_inv h'
           \<and> (\<forall>k kxs. list_inv h k kxs \<longrightarrow> list_inv h' k kxs)"
proof -
  from l obtain hn s where hn: "nodes h l = Some hn" and s: "size_m h l = Some s"
    by (auto simp: list_inv_def list_chain_def split: option.splits)
  let ?h1 = "store_node l (hn\<lparr>next_node := next_node hn\<rparr>) h"
  let ?h2 = "store_node l (hn\<lparr>next_node := next_node hn\<rparr>) ?h1"
  let ?h' = "store_size l s (store_size l s ?h2)"
  have r: "swap l l h = Inr ((), ?h')"
    using hn s by (simp add: swap_def Let_def)
  have n: "nodes ?h' = nodes h"
    using hn by (auto simp: nodes_store_node fun_eq_iff)
  have sz: "size_m ?h' = size_m h"
    using s by (auto simp: size_m_store_size fun_eq_iff)
  have fr: "\<forall>a. a < length (mem h) \<longrightarrow> nodes ?h' a = nodes h a \<and> size_m ?h' a = size_m h a"
    by (simp only: n sz) simp
  have new: "\<forall>a. length (mem h) \<le> a \<and> size_m ?h' a \<noteq> None
               \<longrightarrow> a = length (mem h) \<and> list_inv ?h' a ([]::(addr \<times> 'a) list)
                   \<and> fst ` set ([]::(addr \<times> 'a) list) \<subseteq> {b. length (mem h) \<le> b}"
  proof (intro allI impI)
    fix a assume "length (mem h) \<le> a \<and> size_m ?h' a \<noteq> None"
    then have "length (mem h) \<le> a \<and> size_m h a \<noteq> None" by (metis sz)
    then have le: "length (mem h) \<le> a" and nn: "size_m h a \<noteq> None" by simp_all
    from size_m_None_beyond [OF le] nn have False by simp
    then show "a = length (mem h) \<and> list_inv ?h' a ([]::(addr \<times> 'a) list)
                   \<and> fst ` set ([]::(addr \<times> 'a) list) \<subseteq> {b. length (mem h) \<le> b}" ..
  qed
  have hi: "heap_inv ?h'"
    by (rule conjunct1 [OF heap_inv_fresh [OF inv fr new]])
  have kept: "\<forall>k kxs. list_inv h k kxs \<longrightarrow> list_inv ?h' k kxs"
    by (rule conjunct2 [OF heap_inv_fresh [OF inv fr new]])
  show ?thesis
    by (intro exI [of _ ?h'] conjI) (rule r hi kept)+
qed

lemma copy_step_returns:
  assumes inv: "heap_inv h" and src: "list_inv h src axs"
    and nt: "\<forall>v\<in>set (map snd axs). \<not> copy_throws T v"
  shows "\<exists>h' zs. SingleLinkedList_copy T src h = Some (Inr (length (mem h), h'))
           \<and> list_inv h' (length (mem h)) zs \<and> map snd zs = map snd axs
           \<and> fst ` set zs \<subseteq> {b. length (mem h) \<le> b}
           \<and> heap_inv h' \<and> (\<forall>k kxs. list_inv h k kxs \<longrightarrow> list_inv h' k kxs)"
  using init_step_returns [OF inv nt] copy_eq_init [OF list_inv_chain [OF src], of T]
  by simp

lemma copy_step_throws:
  assumes inv: "heap_inv h" and src: "list_inv h src axs"
    and split: "map snd axs = good @ bad # rest"
    and nt: "\<forall>v\<in>set good. \<not> copy_throws T v" and bad: "copy_throws T bad"
  shows "\<exists>h'. SingleLinkedList_copy T src h = Some (Inl (Thrown h'))
           \<and> (\<forall>a. a < length (mem h) \<longrightarrow> nodes h' a = nodes h a \<and> size_m h' a = size_m h a)
           \<and> heap_inv h' \<and> (\<forall>k kxs. list_inv h k kxs \<longrightarrow> list_inv h' k kxs)"
  using init_step_throws [OF inv nt bad, of rest] copy_eq_init [OF list_inv_chain [OF src], of T]
  by (simp add: split)

lemma first_throwing:
  assumes "\<not> (\<forall>v\<in>set vs. \<not> copy_throws T v)"
  obtains good bad rest where "vs = good @ bad # rest"
    and "\<forall>v\<in>set good. \<not> copy_throws T v" and "copy_throws T bad"
proof -
  from assms have "\<exists>v\<in>set vs. copy_throws T v" by simp
  from split_list_first_prop [OF this] show ?thesis using that by blast
qed


lemma assign_step_returns:
  assumes inv: "heap_inv h" and a: "list_inv h a axs" and b: "list_inv h b bxs"
    and ne: "a \<noteq> b" and nt: "\<forall>v\<in>set (map snd bxs). \<not> copy_throws T v"
  shows "\<exists>h' cxs. assign T a b h = Some (Inr (a, h'))
           \<and> list_inv h' a cxs \<and> map snd cxs = map snd bxs
           \<and> heap_inv h' \<and> (\<forall>k kxs. list_inv h k kxs \<and> k \<noteq> a \<longrightarrow> list_inv h' k kxs)"
proof -
  let ?L = "length (mem h)"
  from copy_step_returns [OF inv b nt] obtain h1 zs where h1:
    "SingleLinkedList_copy T b h = Some (Inr (?L, h1))" "list_inv h1 ?L zs"
    "map snd zs = map snd bxs" "heap_inv h1"
    "\<forall>k kxs. list_inv h k kxs \<longrightarrow> list_inv h1 k kxs"
    by blast
  have below: "k < ?L" if "list_inv h k kxs" for k kxs
    using footprint_below [OF that, of k] by (simp add: footprint_def)
  have aL: "a \<noteq> ?L" using below [OF a] by simp
  have a1: "list_inv h1 a axs" using h1(5) a by blast
  from swap_step [OF h1(4) a1 h1(2) aL] obtain h2 where h2:
    "swap a ?L h1 = Inr ((), h2)" "list_inv h2 a zs" "list_inv h2 ?L axs" "heap_inv h2"
    "\<forall>k kxs. list_inv h1 k kxs \<and> k \<noteq> a \<and> k \<noteq> ?L \<longrightarrow> list_inv h2 k kxs"
    by blast
  from dtor_step [OF h2(4) h2(3)] obtain h3 where h3:
    "SingleLinkedList_dtor ?L h2 = Some (Inr ((), h3))" "heap_inv h3"
    "\<forall>k kxs. list_inv h2 k kxs \<and> k \<noteq> ?L \<longrightarrow> list_inv h3 k kxs"
    by blast
  have r: "assign T a b h = Some (Inr (a, h3))"
    using ne h1(1) h2(1) h3(1) by (simp add: assign_def)
  have a3: "list_inv h3 a zs" using h3(3) h2(2) aL by blast
  have kept: "list_inv h3 k kxs" if "list_inv h k kxs" "k \<noteq> a" for k kxs
  proof -
    have "k \<noteq> ?L" using below [OF that(1)] by simp
    moreover have "list_inv h1 k kxs" using h1(5) that(1) by blast
    ultimately show ?thesis using h2(5) h3(3) that(2) by blast
  qed
  show ?thesis
    by (intro exI [of _ h3] exI [of _ zs] conjI allI impI)
       (rule r a3 h1(3) h3(2) | erule conjE, rule kept, assumption+)+
qed

lemma assign_step_throws:
  assumes inv: "heap_inv h" and b: "list_inv h b bxs" and ne: "a \<noteq> b"
    and split: "map snd bxs = good @ bad # rest"
    and nt: "\<forall>v\<in>set good. \<not> copy_throws T v" and bad: "copy_throws T bad"
  shows "\<exists>h'. assign T a b h = Some (Inl (Thrown h'))
           \<and> (\<forall>x. x < length (mem h) \<longrightarrow> nodes h' x = nodes h x \<and> size_m h' x = size_m h x)
           \<and> heap_inv h' \<and> (\<forall>k kxs. list_inv h k kxs \<longrightarrow> list_inv h' k kxs)"
proof -
  from copy_step_throws [OF inv b split nt bad] obtain h1 where h1:
    "SingleLinkedList_copy T b h = Some (Inl (Thrown h1))"
    "\<forall>x. x < length (mem h) \<longrightarrow> nodes h1 x = nodes h x \<and> size_m h1 x = size_m h x"
    "heap_inv h1" "\<forall>k kxs. list_inv h k kxs \<longrightarrow> list_inv h1 k kxs"
    by blast
  have r: "assign T a b h = Some (Inl (Thrown h1))"
    using ne h1(1) by (simp add: assign_def)
  show ?thesis
    by (intro exI [of _ h1] conjI) (rule r h1(2) h1(3) h1(4))+
qed

section \<open>The outcome of a call\<close>

lemma preserved_refl: "heap_inv h \<Longrightarrow> preserved h X h"
  by (simp add: preserved_def)

lemma preservedI:
  "heap_inv h' \<Longrightarrow> (\<forall>k kxs. list_inv h k kxs \<and> k \<notin> X \<longrightarrow> list_inv h' k kxs) \<Longrightarrow> preserved h X h'"
  by (simp add: preserved_def)

lemma InsertAfter_end: "InsertAfter T l None v h = Inl Undefined"
  by (simp add: InsertAfter_def)

lemma EraseAfter_end: "EraseAfter l None h = Inl Undefined"
  by (simp add: EraseAfter_def)

lemma EraseAfter_last:
  assumes "list_inv h l axs"
  shows "EraseAfter l (Some ((l # map fst axs) ! length axs)) h = Inl Undefined"
proof -
  from list_last_link [OF assms] obtain n where
    "nodes h ((l # map fst axs) ! length axs) = Some n" "next_node n = None" by blast
  then show ?thesis by (simp add: EraseAfter_def)
qed

lemma exec_InsertAfter:
  assumes inv: "heap_inv h" and l: "list_inv h l axs"
  shows "exec T (Call_InsertAfter l n v) h =
           (if length axs < n then Some (Inl Undefined)
            else if copy_throws T v then Some (Inl (Thrown h))
            else Some (Inr ((), snd (projr (InsertAfter T l (Some ((l # map fst axs) ! n)) v h)))))
       \<and> (n \<le> length axs \<and> \<not> copy_throws T v \<longrightarrow>
            (\<exists>h'. exec T (Call_InsertAfter l n v) h = Some (Inr ((), h'))
               \<and> list_inv h' l (take n axs @ (length (mem h), v) # drop n axs)
               \<and> preserved h {l} h'))"
proof -
  have live: "is_list h l" by (rule list_inv_is_list [OF l])
  have adv: "advance h (before_begin l) n =
           (if n \<le> length axs then Inr (Some ((l # map fst axs) ! n))
            else if n = Suc (length axs) then Inr None else Inl Undefined)"
    by (rule advance_list [OF l])
  show ?thesis
  proof (cases "n \<le> length axs")
    case False
    then show ?thesis using live adv by (simp add: InsertAfter_end forget_def)
  next
    case True
    show ?thesis
    proof (cases "copy_throws T v")
      case thr: True
      have "n < length (l # map fst axs)" using \<open>n \<le> length axs\<close> by simp
      then have "(l # map fst axs) ! n \<in> set (l # map fst axs)" by (rule nth_mem)
      then have "(l # map fst axs) ! n \<in> insert l (fst ` set axs)" by simp
      from list_chain_live [OF list_inv_chain [OF l] this]
      obtain pn where "nodes h ((l # map fst axs) ! n) = Some pn" by blast
      from InsertAfter_throws [OF this thr] True thr live adv show ?thesis
        by (simp add: forget_def)
    next
      case nt: False
      from insert_step [OF inv l True nt] obtain h' where h':
        "InsertAfter T l (Some ((l # map fst axs) ! n)) v h = Inr (Some (length (mem h)), h')"
        "list_inv h' l (take n axs @ (length (mem h), v) # drop n axs)"
        "heap_inv h'" "\<forall>k kxs. list_inv h k kxs \<and> k \<noteq> l \<longrightarrow> list_inv h' k kxs"
        by blast
      have "preserved h {l} h'" using h'(3,4) by (simp add: preserved_def)
      with h'(1,2) True nt live adv show ?thesis
        by (simp add: forget_def)
    qed
  qed
qed

lemma exec_PushFront:
  assumes inv: "heap_inv h" and l: "list_inv h l axs"
  shows "exec T (Call_PushFront l v) h = exec T (Call_InsertAfter l 0 v) h"
  using list_inv_is_list [OF l]
  by (simp add: PushFront_InsertAfter forget_def before_begin_def split: sum.splits)

lemma exec_EraseAfter:
  assumes inv: "heap_inv h" and l: "list_inv h l axs"
  shows "(length axs \<le> n \<longrightarrow> exec T (Call_EraseAfter l n) h = Some (Inl Undefined))
       \<and> (n < length axs \<longrightarrow>
            (\<exists>h'. exec T (Call_EraseAfter l n) h = Some (Inr ((), h'))
               \<and> list_inv h' l (take n axs @ drop (Suc n) axs)
               \<and> preserved h {l} h'))"
proof -
  have live: "is_list h l" by (rule list_inv_is_list [OF l])
  have adv: "advance h (before_begin l) n =
           (if n \<le> length axs then Inr (Some ((l # map fst axs) ! n))
            else if n = Suc (length axs) then Inr None else Inl Undefined)"
    by (rule advance_list [OF l])
  show ?thesis
  proof (intro conjI impI)
    assume "length axs \<le> n"
    then show "exec T (Call_EraseAfter l n) h = Some (Inl Undefined)"
      using live adv EraseAfter_last [OF l]
      by (cases "n = length axs") (simp_all add: EraseAfter_end forget_def)
  next
    assume n: "n < length axs"
    from erase_step [OF inv l n] obtain h' it where h':
      "EraseAfter l (Some ((l # map fst axs) ! n)) h = Inr (it, h')"
      "list_inv h' l (take n axs @ drop (Suc n) axs)"
      "heap_inv h'" "\<forall>k kxs. list_inv h k kxs \<and> k \<noteq> l \<longrightarrow> list_inv h' k kxs"
      by blast
    have "preserved h {l} h'" using h'(3,4) by (simp add: preserved_def)
    with h'(1,2) n live adv
    show "\<exists>h'. exec T (Call_EraseAfter l n) h = Some (Inr ((), h'))
               \<and> list_inv h' l (take n axs @ drop (Suc n) axs)
               \<and> preserved h {l} h'"
      by (simp add: forget_def)
  qed
qed

lemma exec_PopFront:
  assumes inv: "heap_inv h" and l: "list_inv h l axs"
  shows "exec T (Call_PopFront l) h = exec T (Call_EraseAfter l 0) h"
  using list_inv_is_list [OF l]
  by (simp add: PopFront_def forget_def before_begin_def split: sum.splits)


lemma exec_outcome:
  assumes inv: "heap_inv h"
  shows "\<exists>r. exec T c h = Some r \<and> outcome_ok h (targets c) r"
proof (cases c)
  case Call_default
  from default_step [OF inv, of T] obtain h' where
    "SingleLinkedList_default T h = (length (mem h), h')" "preserved h {} h'"
    by (auto simp: preserved_def)
  with Call_default show ?thesis by (simp add: outcome_ok_def)
next
  case (Call_init vs)
  show ?thesis
  proof (cases "\<forall>v\<in>set vs. \<not> copy_throws T v")
    case True
    from init_step_returns [OF inv True] obtain h' where
      "SingleLinkedList_init T vs h = Some (Inr (length (mem h), h'))" "preserved h {} h'"
      by (auto simp: preserved_def)
    with Call_init show ?thesis by (simp add: outcome_ok_def forget_def)
  next
    case False
    from first_throwing [OF False] obtain good bad rest where s: "vs = good @ bad # rest"
      "\<forall>v\<in>set good. \<not> copy_throws T v" "copy_throws T bad" by blast
    from init_step_throws [OF inv s(2,3), of rest] obtain h' where
      "SingleLinkedList_init T vs h = Some (Inl (Thrown h'))" "preserved h {} h'"
      by (auto simp: preserved_def s(1))
    with Call_init show ?thesis by (simp add: outcome_ok_def forget_def)
  qed
next
  case (Call_copy src)
  show ?thesis
  proof (cases "is_list h src")
    case False
    with Call_copy show ?thesis by (simp add: outcome_ok_def)
  next
    case True
    from heap_inv_list [OF inv True] obtain axs where src: "list_inv h src axs" by blast
    show ?thesis
    proof (cases "\<forall>v\<in>set (map snd axs). \<not> copy_throws T v")
      case nt: True
      from copy_step_returns [OF inv src nt] obtain h' where
        "SingleLinkedList_copy T src h = Some (Inr (length (mem h), h'))" "preserved h {} h'"
        by (auto simp: preserved_def)
      with Call_copy True show ?thesis by (simp add: outcome_ok_def forget_def)
    next
      case False
      from first_throwing [OF False] obtain good bad rest where
        s: "map snd axs = good @ bad # rest"
        "\<forall>v\<in>set good. \<not> copy_throws T v" "copy_throws T bad" by blast
      from copy_step_throws [OF inv src s] obtain h' where
        "SingleLinkedList_copy T src h = Some (Inl (Thrown h'))" "preserved h {} h'"
        by (auto simp: preserved_def)
      with Call_copy True show ?thesis by (simp add: outcome_ok_def forget_def)
    qed
  qed
next
  case (Call_dtor l)
  show ?thesis
  proof (cases "is_list h l")
    case False
    with Call_dtor show ?thesis by (simp add: outcome_ok_def)
  next
    case True
    from heap_inv_list [OF inv True] obtain axs where l: "list_inv h l axs" by blast
    from dtor_step [OF inv l] obtain h' where
      "SingleLinkedList_dtor l h = Some (Inr ((), h'))" "preserved h {l} h'"
      by (auto simp: preserved_def)
    with Call_dtor True show ?thesis by (simp add: outcome_ok_def)
  qed
next
  case (Call_PushFront l v)
  show ?thesis
  proof (cases "is_list h l")
    case False
    with Call_PushFront show ?thesis by (simp add: outcome_ok_def)
  next
    case True
    from heap_inv_list [OF inv True] obtain axs where l: "list_inv h l axs" by blast
    from exec_InsertAfter [OF inv l, of T 0 v] preserved_refl [OF inv, of "{l}"]
    have "\<exists>r. exec T (Call_InsertAfter l 0 v) h = Some r \<and> outcome_ok h {l} r"
      by (cases "copy_throws T v") (auto simp: outcome_ok_def)
    with Call_PushFront exec_PushFront [OF inv l, of T v] show ?thesis by simp
  qed
next
  case (Call_PopFront l)
  show ?thesis
  proof (cases "is_list h l")
    case False
    with Call_PopFront show ?thesis by (simp add: outcome_ok_def)
  next
    case True
    from heap_inv_list [OF inv True] obtain axs where l: "list_inv h l axs" by blast
    from exec_EraseAfter [OF inv l, of 0 T]
    have "\<exists>r. exec T (Call_EraseAfter l 0) h = Some r \<and> outcome_ok h {l} r"
      by (cases "0 < length axs") (auto simp: outcome_ok_def)
    with Call_PopFront exec_PopFront [OF inv l, of T] show ?thesis by simp
  qed
next
  case (Call_InsertAfter l n v)
  show ?thesis
  proof (cases "is_list h l")
    case False
    with Call_InsertAfter show ?thesis by (simp add: outcome_ok_def)
  next
    case True
    from heap_inv_list [OF inv True] obtain axs where l: "list_inv h l axs" by blast
    from exec_InsertAfter [OF inv l, of T n v] preserved_refl [OF inv, of "{l}"]
    have "\<exists>r. exec T (Call_InsertAfter l n v) h = Some r \<and> outcome_ok h {l} r"
      by (cases "copy_throws T v"; cases "n \<le> length axs") (auto simp: outcome_ok_def)
    with Call_InsertAfter show ?thesis by simp
  qed
next
  case (Call_EraseAfter l n)
  show ?thesis
  proof (cases "is_list h l")
    case False
    with Call_EraseAfter show ?thesis by (simp add: outcome_ok_def)
  next
    case True
    from heap_inv_list [OF inv True] obtain axs where l: "list_inv h l axs" by blast
    from exec_EraseAfter [OF inv l, of n T]
    have "\<exists>r. exec T (Call_EraseAfter l n) h = Some r \<and> outcome_ok h {l} r"
      by (cases "n < length axs") (auto simp: outcome_ok_def)
    with Call_EraseAfter show ?thesis by simp
  qed
next
  case (Call_Clear l)
  show ?thesis
  proof (cases "is_list h l")
    case False
    with Call_Clear show ?thesis by (simp add: outcome_ok_def)
  next
    case True
    from heap_inv_list [OF inv True] obtain axs where l: "list_inv h l axs" by blast
    from clear_step [OF inv l] obtain h' where
      "Clear l h = Some (Inr ((), h'))" "preserved h {l} h'"
      by (auto simp: preserved_def)
    with Call_Clear True show ?thesis by (simp add: outcome_ok_def)
  qed
next
  case (Call_swap l l')
  show ?thesis
  proof (cases "is_list h l \<and> is_list h l'")
    case False
    with Call_swap show ?thesis by (auto simp: outcome_ok_def)
  next
    case True
    from heap_inv_list [OF inv] True obtain axs axs' where
      l: "list_inv h l axs" and l': "list_inv h l' axs'" by blast
    show ?thesis
    proof (cases "l = l'")
      case same: True
      from swap_self_step [OF inv l] obtain h' where
        "swap l l h = Inr ((), h')" "preserved h {l, l'} h'"
        by (auto simp: preserved_def)
      with Call_swap True same show ?thesis by (simp add: outcome_ok_def)
    next
      case ne: False
      from swap_step [OF inv l l' ne] obtain h' where
        "swap l l' h = Inr ((), h')" "preserved h {l, l'} h'"
        by (auto simp: preserved_def)
      with Call_swap True show ?thesis by (simp add: outcome_ok_def)
    qed
  qed
next
  case (Call_assign l rhs)
  show ?thesis
  proof (cases "is_list h l \<and> is_list h rhs")
    case False
    with Call_assign show ?thesis by (auto simp: outcome_ok_def)
  next
    case True
    from heap_inv_list [OF inv] True obtain axs bxs where
      l: "list_inv h l axs" and b: "list_inv h rhs bxs" by blast
    show ?thesis
    proof (cases "l = rhs")
      case same: True
      with Call_assign True preserved_refl [OF inv, of "{l}"] show ?thesis
        by (simp add: outcome_ok_def assign_def forget_def)
    next
      case ne: False
      show ?thesis
      proof (cases "\<forall>v\<in>set (map snd bxs). \<not> copy_throws T v")
        case nt: True
        from assign_step_returns [OF inv l b ne nt] obtain h' where
          "assign T l rhs h = Some (Inr (l, h'))" "preserved h {l} h'"
          by (auto simp: preserved_def)
        with Call_assign True show ?thesis by (simp add: outcome_ok_def forget_def)
      next
        case False
        from first_throwing [OF False] obtain good bad rest where
          s: "map snd bxs = good @ bad # rest"
          "\<forall>v\<in>set good. \<not> copy_throws T v" "copy_throws T bad" by blast
        from assign_step_throws [OF inv b ne s] obtain h' where
          "assign T l rhs h = Some (Inl (Thrown h'))" "preserved h {l} h'"
          by (auto simp: preserved_def)
        with Call_assign True show ?thesis by (simp add: outcome_ok_def forget_def)
      qed
    qed
  qed
qed


section \<open>Runs of calls\<close>

lemma heap_inv_empty: "heap_inv empty_heap"
  by (simp add: heap_inv_def is_list_def size_m_def cell_def empty_heap_def)

lemma exec_all_outcome:
  assumes "heap_inv h"
  shows "\<exists>r. exec_all T cs h = Some r
           \<and> (r = Inl Undefined
              \<or> (\<exists>h'. r = Inr ((), h') \<and> heap_inv h'
                    \<and> (\<forall>l axs. list_inv h l axs \<and> (\<forall>c\<in>set cs. l \<notin> targets c)
                          \<longrightarrow> list_inv h' l axs)))"
  using assms
proof (induction cs arbitrary: h)
  case Nil
  then show ?case by simp
next
  case (Cons c cs)
  from exec_outcome [OF Cons.prems, of T c] obtain r1 where r1: "exec T c h = Some r1"
    "outcome_ok h (targets c) r1" by blast
  have go: ?case if e: "exec_all T (c # cs) h = exec_all T cs h1" and p: "preserved h (targets c) h1"
    for h1
  proof -
    from p have inv1: "heap_inv h1"
      and kept: "\<forall>l axs. list_inv h l axs \<and> l \<notin> targets c \<longrightarrow> list_inv h1 l axs"
      by (simp_all add: preserved_def)
    from Cons.IH [OF inv1] obtain r where r: "exec_all T cs h1 = Some r"
      "r = Inl Undefined
       \<or> (\<exists>h'. r = Inr ((), h') \<and> heap_inv h'
             \<and> (\<forall>l axs. list_inv h1 l axs \<and> (\<forall>c\<in>set cs. l \<notin> targets c) \<longrightarrow> list_inv h' l axs))"
      by blast
    from r(2) show ?thesis
    proof
      assume "r = Inl Undefined"
      with e r(1) show ?thesis by simp
    next
      assume "\<exists>h'. r = Inr ((), h') \<and> heap_inv h'
             \<and> (\<forall>l axs. list_inv h1 l axs \<and> (\<forall>c\<in>set cs. l \<notin> targets c) \<longrightarrow> list_inv h' l axs)"
      then obtain h' where h': "r = Inr ((), h')" "heap_inv h'"
        "\<forall>l axs. list_inv h1 l axs \<and> (\<forall>c\<in>set cs. l \<notin> targets c) \<longrightarrow> list_inv h' l axs"
        by blast
      have "\<forall>l axs. list_inv h l axs \<and> (\<forall>k\<in>set (c # cs). l \<notin> targets k) \<longrightarrow> list_inv h' l axs"
        using kept h'(3) by simp
      with e r(1) h'(1,2) show ?thesis by simp
    qed
  qed
  show ?case
  proof (cases r1)
    case (Inl e)
    show ?thesis
    proof (cases e)
      case Undefined
      with r1(1) Inl show ?thesis by simp
    next
      case (Thrown h1)
      with r1 Inl show ?thesis by (intro go [of h1]) (simp_all add: outcome_ok_def)
    qed
  next
    case (Inr p)
    obtain u h1 where "p = (u, h1)" by (cases p)
    with r1 Inr show ?thesis by (intro go [of h1]) (simp_all add: outcome_ok_def)
  qed
qed

lemma run_keeps_inv:
  assumes "exec_all T cs empty_heap = Some (Inr ((), h))"
  shows "heap_inv h"
  using exec_all_outcome [OF heap_inv_empty, of T cs] assms by auto

lemma delta_other: "l \<notin> targets c \<Longrightarrow> delta l c = 0"
  by (cases c) auto

lemma edit_outcome:
  assumes inv: "heap_inv h" and l: "list_inv h l axs" and e: "is_edit_of l c"
  shows "exec T c h = Some (Inl Undefined) \<or> exec T c h = Some (Inl (Thrown h))
       \<or> (\<exists>h' axs'. exec T c h = Some (Inr ((), h')) \<and> heap_inv h' \<and> list_inv h' l axs'
             \<and> int (length axs') = int (length axs) + delta l c)"
proof -
  have ins: "exec T (Call_InsertAfter l n v) h = Some (Inl Undefined)
       \<or> exec T (Call_InsertAfter l n v) h = Some (Inl (Thrown h))
       \<or> (\<exists>h' axs'. exec T (Call_InsertAfter l n v) h = Some (Inr ((), h')) \<and> heap_inv h'
             \<and> list_inv h' l axs' \<and> int (length axs') = int (length axs) + 1)" for n v
  proof (cases "n \<le> length axs \<and> \<not> copy_throws T v")
    case True
    with exec_InsertAfter [OF inv l, of T n v] obtain h' where
      "exec T (Call_InsertAfter l n v) h = Some (Inr ((), h'))"
      "list_inv h' l (take n axs @ (length (mem h), v) # drop n axs)" "preserved h {l} h'"
      by blast
    moreover have "int (length (take n axs @ (length (mem h), v) # drop n axs))
                     = int (length axs) + 1"
      using True by simp
    ultimately show ?thesis by (auto simp: preserved_def)
  next
    case False
    with exec_InsertAfter [OF inv l, of T n v] show ?thesis by auto
  qed
  have era: "exec T (Call_EraseAfter l n) h = Some (Inl Undefined)
       \<or> exec T (Call_EraseAfter l n) h = Some (Inl (Thrown h))
       \<or> (\<exists>h' axs'. exec T (Call_EraseAfter l n) h = Some (Inr ((), h')) \<and> heap_inv h'
             \<and> list_inv h' l axs' \<and> int (length axs') = int (length axs) + - 1)" for n
  proof (cases "n < length axs")
    case True
    with exec_EraseAfter [OF inv l, of n T] obtain h' where
      "exec T (Call_EraseAfter l n) h = Some (Inr ((), h'))"
      "list_inv h' l (take n axs @ drop (Suc n) axs)" "preserved h {l} h'"
      by blast
    moreover have "int (length (take n axs @ drop (Suc n) axs)) = int (length axs) + - 1"
      using True by simp
    ultimately show ?thesis by (auto simp: preserved_def)
  next
    case False
    with exec_EraseAfter [OF inv l, of n T] show ?thesis by auto
  qed
  show ?thesis
  proof (cases c)
    case (Call_PushFront k v)
    with e ins [of 0 v] exec_PushFront [OF inv l, of T v] show ?thesis by simp
  next
    case (Call_PopFront k)
    with e era [of 0] exec_PopFront [OF inv l, of T] show ?thesis by simp
  next
    case (Call_InsertAfter k n v)
    with e ins [of n v] show ?thesis by simp
  next
    case (Call_EraseAfter k n)
    with e era [of n] show ?thesis by simp
  qed (use e in simp_all)
qed

lemma run_net:
  assumes "heap_inv h" and "list_inv h l axs"
    and "\<forall>c\<in>set cs. is_edit_of l c \<or> l \<notin> targets c"
    and "exec_all T cs h = Some (Inr ((), h'))"
  shows "\<exists>axs'. list_inv h' l axs' \<and> int (length axs') = int (length axs) + net T l cs h"
  using assms
proof (induction cs arbitrary: h axs)
  case Nil
  then show ?case by auto
next
  case (Cons c cs)
  from Cons.prems(3) have rest: "\<forall>c\<in>set cs. is_edit_of l c \<or> l \<notin> targets c"
    and c: "is_edit_of l c \<or> l \<notin> targets c" by simp_all
  have go: ?case
    if "heap_inv h1" "list_inv h1 l axs1" "exec_all T (c # cs) h = exec_all T cs h1"
      "net T l (c # cs) h = d + net T l cs h1" "int (length axs1) = int (length axs) + d"
    for h1 axs1 d
  proof -
    from that(3) Cons.prems(4) have "exec_all T cs h1 = Some (Inr ((), h'))" by simp
    from Cons.IH [OF that(1,2) rest this] obtain axs' where
      "list_inv h' l axs'" "int (length axs') = int (length axs1) + net T l cs h1" by blast
    with that(4,5) show ?thesis by (intro exI [of _ axs']) simp
  qed
  from c show ?case
  proof
    assume e: "is_edit_of l c"
    from edit_outcome [OF Cons.prems(1,2) e, of T] show ?case
    proof (elim disjE exE conjE)
      assume "exec T c h = Some (Inl Undefined)"
      with Cons.prems(4) show ?case by simp
    next
      assume t: "exec T c h = Some (Inl (Thrown h))"
      show ?case
        by (rule go [of h axs 0]) (simp_all add: Cons.prems(1,2) t)
    next
      fix h1 axs1
      assume r: "exec T c h = Some (Inr ((), h1))" "heap_inv h1" "list_inv h1 l axs1"
        "int (length axs1) = int (length axs) + delta l c"
      show ?case
        by (rule go [of h1 axs1 "delta l c"]) (simp_all add: r)
    qed
  next
    assume o: "l \<notin> targets c"
    from exec_outcome [OF Cons.prems(1), of T c] obtain r1 where r1: "exec T c h = Some r1"
      "outcome_ok h (targets c) r1" by blast
    show ?case
    proof (cases r1)
      case (Inl e)
      show ?thesis
      proof (cases e)
        case Undefined
        with r1(1) Inl Cons.prems(4) show ?thesis by simp
      next
        case (Thrown h1)
        with r1 Inl have p: "preserved h (targets c) h1" by (simp add: outcome_ok_def)
        then have "heap_inv h1" "list_inv h1 l axs"
          using Cons.prems(2) o by (auto simp: preserved_def)
        then show ?thesis
          by (rule go [of h1 axs 0]) (simp_all add: r1(1) Inl Thrown)
      qed
    next
      case (Inr p)
      obtain u h1 where p: "p = (u, h1)" by (cases p)
      with r1 Inr have "preserved h (targets c) h1" by (simp add: outcome_ok_def)
      then have "heap_inv h1" "list_inv h1 l axs"
        using Cons.prems(2) o by (auto simp: preserved_def)
      then show ?thesis
        by (rule go [of h1 axs 0]) (simp_all add: r1(1) Inr p delta_other [OF o])
    qed
  qed
qed


section \<open>The claims about the invariant, copies and assignment\<close>

lemma list_inv_distinct: "list_inv h l axs \<Longrightarrow> distinct (l # map fst axs)"
proof -
  assume "list_inv h l axs"
  then obtain hn where hn: "nodes h l = Some hn"
    and root: "chain (nodes h) (Some l) ((l, node_value hn) # axs)"
    by (auto simp: list_inv_def list_chain_rooted)
  from chain_distinct [OF root] show ?thesis by simp
qed

lemma size_t_exact:
  assumes "n < 2 ^ 64"
  shows "unat (of_nat n :: size_t) = n"
  using assms by (simp add: unat_of_nat take_bit_nat_eq_self)

text \<open>
  Claim C2. Take any run of calls of the public operations from empty memory that
  ends without undefined behaviour (calls are made on live list objects, positions are
  reached from \<^verbatim>\<open>before_begin()\<close>, \<^verbatim>\<open>PopFront\<close> and \<^verbatim>\<open>EraseAfter\<close> find a node to remove;
  calls that throw are part of the run). In the memory it ends in, every live list
  object is well-formed: following the links from its sentinel is a finite traversal
  over pairwise distinct nodes whose last link is empty, and \<^verbatim>\<open>GetSize()\<close> is the number
  of these nodes (as a \<^verbatim>\<open>size_t\<close>; exactly that number while it is below \<open>2 ^ 64\<close>). No two
  lists share a node. When the run goes on with insertions and removals of single
  elements of one list (and calls that do not change that list), the number of its
  nodes, and with it its size, changes by the insertions that returned minus the
  removals that returned.
\<close>

theorem count_is_number_of_nodes:
  assumes "exec_all T cs empty_heap = Some (Inr ((), h))"
  shows "heap_inv h
       \<and> (\<forall>l. is_list h l \<longrightarrow>
            (\<exists>axs. list_inv h l axs
               \<and> GetSize h l = Inr (of_nat (length axs))
               \<and> (length axs < 2 ^ 64 \<longrightarrow> (\<exists>n. GetSize h l = Inr n \<and> unat n = length axs))
               \<and> distinct (l # map fst axs)
               \<and> traverse h l = Some (Inr (map snd axs))
               \<and> (\<exists>n. nodes h ((l # map fst axs) ! length axs) = Some n \<and> next_node n = None)))
       \<and> (\<forall>l axs es h'.
            list_inv h l axs \<and> (\<forall>c\<in>set es. is_edit_of l c \<or> l \<notin> targets c)
            \<and> exec_all T es h = Some (Inr ((), h'))
            \<longrightarrow> (\<exists>axs'. list_inv h' l axs'
                    \<and> int (length axs') = int (length axs) + net T l es h
                    \<and> GetSize h' l = Inr (of_nat (length axs'))))"
proof (intro conjI allI impI)
  show inv: "heap_inv h" by (rule run_keeps_inv [OF assms])
  {
    fix l assume "is_list h l"
    from heap_inv_list [OF inv this] obtain axs where l: "list_inv h l axs" by blast
    have "length axs < 2 ^ 64 \<longrightarrow> (\<exists>n. GetSize h l = Inr n \<and> unat n = length axs)"
      using GetSize_list [OF l] size_t_exact [of "length axs"] by auto
    with l GetSize_list [OF l] list_inv_distinct [OF l] traverse_list [OF list_inv_chain [OF l]]
      list_last_link [OF l]
    show "\<exists>axs. list_inv h l axs
               \<and> GetSize h l = Inr (of_nat (length axs))
               \<and> (length axs < 2 ^ 64 \<longrightarrow> (\<exists>n. GetSize h l = Inr n \<and> unat n = length axs))
               \<and> distinct (l # map fst axs)
               \<and> traverse h l = Some (Inr (map snd axs))
               \<and> (\<exists>n. nodes h ((l # map fst axs) ! length axs) = Some n \<and> next_node n = None)"
      by blast
  }
  {
    fix l axs es h'
    assume a: "list_inv h l axs \<and> (\<forall>c\<in>set es. is_edit_of l c \<or> l \<notin> targets c)
            \<and> exec_all T es h = Some (Inr ((), h'))"
    then have l: "list_inv h l axs" and es: "\<forall>c\<in>set es. is_edit_of l c \<or> l \<notin> targets c"
      and r: "exec_all T es h = Some (Inr ((), h'))" by simp_all
    from run_net [OF inv l es r] obtain axs' where
      x: "list_inv h' l axs'" "int (length axs') = int (length axs) + net T l es h" by blast
    with GetSize_list [OF x(1)]
    show "\<exists>axs'. list_inv h' l axs'
                    \<and> int (length axs') = int (length axs) + net T l es h
                    \<and> GetSize h' l = Inr (of_nat (length axs'))"
      by blast
  }
qed

theorem count_is_number_of_nodes_witness:
  "exec_all T_nat [Call_init [1, 2], Call_PushFront 0 7, Call_EraseAfter 0 1] empty_heap
     = Some (Inr ((), h_run))
   \<and> is_list h_run 0 \<and> list_inv h_run 0 [(4, 7), (3, 2)]
   \<and> GetSize h_run 0 = Inr 2
   \<and> exec_all T_nat [Call_PushFront 0 8, Call_PushFront 0 13, Call_PopFront 0, Call_PopFront 0]
        h_run = Some (Inr ((), h_run2))
   \<and> net T_nat 0 [Call_PushFront 0 8, Call_PushFront 0 13, Call_PopFront 0, Call_PopFront 0]
        h_run = - 1
   \<and> GetSize h_run2 0 = Inr 1"
proof -
  let ?es = "[Call_PushFront 0 8, Call_PushFront 0 13, Call_PopFront 0, Call_PopFront 0]"
  have run: "exec_all T_nat [Call_init [1, 2], Call_PushFront 0 7, Call_EraseAfter 0 1] empty_heap
     = Some (Inr ((), h_run))"
    by code_simp
  have live: "is_list h_run 0" by code_simp
  have l: "list_inv h_run 0 [(4, 7), (3, 2)]"
    by (simp add: list_inv_def list_chain_def nodes_def size_m_def cell_def h_run_def)
  have es: "\<forall>c\<in>set ?es. is_edit_of 0 c \<or> 0 \<notin> targets c" by simp
  have run2: "exec_all T_nat ?es h_run = Some (Inr ((), h_run2))" by code_simp
  have n: "net T_nat 0 ?es h_run = - 1" by code_simp
  from count_is_number_of_nodes [OF run] l es run2
  obtain axs' where x: "list_inv h_run2 0 axs'"
    "int (length axs') = int (length [(4::nat, 7::nat), (3, 2)]) + net T_nat 0 ?es h_run"
    "GetSize h_run2 0 = Inr (of_nat (length axs'))"
    by blast
  from x(2) n have "length axs' = 1" by simp
  with x(3) have "GetSize h_run2 0 = Inr 1" by simp
  moreover have "GetSize h_run 0 = Inr 2" using GetSize_list [OF l] by simp
  ultimately show ?thesis using run live l run2 n by simp
qed


lemma h_prefix_run:
  "exec_all T_nat [Call_init [1], Call_init [1, 2]] empty_heap = Some (Inr ((), h_prefix))"
  by code_simp

lemma h_prefix_first: "list_inv h_prefix 0 [(2, 1)]"
  by (simp add: list_inv_def list_chain_def nodes_def size_m_def cell_def h_prefix_def)

lemma h_prefix_second: "list_inv h_prefix 3 [(5, 1), (6, 2)]"
  by (simp add: list_inv_def list_chain_def nodes_def size_m_def cell_def h_prefix_def)

lemma equal_lists_compare_equal:
  assumes "list_inv h a axs" and "list_inv h b bxs" and "map snd axs = map snd bxs"
  shows "operator_eq h a b = Some (Inr True)" and "GetSize h a = GetSize h b"
    and "traverse h a = traverse h b"
proof -
  have len: "length axs = length bxs" using assms(3) by (metis length_map)
  then have "length axs \<le> length bxs" by simp
  from operator_eq_list [OF list_inv_chain [OF assms(1)] list_inv_chain [OF assms(2)] this]
  show "operator_eq h a b = Some (Inr True)" using assms(3) len by simp
  show "GetSize h a = GetSize h b"
    using GetSize_list [OF assms(1)] GetSize_list [OF assms(2)] len by simp
  show "traverse h a = traverse h b"
    using traverse_list [OF list_inv_chain [OF assms(1)]]
      traverse_list [OF list_inv_chain [OF assms(2)]] assms(3) by simp
qed

text \<open>
  Claim C4. In a memory that satisfies the invariant, let \<open>a\<close> and \<open>b\<close> be lists. If
  they are different objects and no copy of an element of \<open>b\<close> throws, \<^verbatim>\<open>a = b\<close> returns
  \<^verbatim>\<open>*this\<close>, and afterwards \<open>a\<close> is a well-formed list with the elements of \<open>b\<close> in their
  order and the size of \<open>b\<close>, while \<open>b\<close> is what it was. If a copy throws, the
  assignment leaves through the exception and \<open>a\<close> and \<open>b\<close>, and every cell that was
  in memory, are what they were. \<^verbatim>\<open>a = a\<close> returns at once with the memory unchanged.
\<close>

theorem assign_copies_or_leaves:
  assumes "heap_inv h" and "list_inv h a axs" and "list_inv h b bxs"
  shows "(a \<noteq> b \<and> (\<forall>v\<in>set (map snd bxs). \<not> copy_throws T v) \<longrightarrow>
            (\<exists>h' cxs. assign T a b h = Some (Inr (a, h'))
               \<and> list_inv h' a cxs \<and> map snd cxs = map snd bxs \<and> list_inv h' b bxs
               \<and> traverse h' a = Some (Inr (map snd bxs))
               \<and> GetSize h' a = GetSize h' b
               \<and> operator_eq h' a b = Some (Inr True)
               \<and> heap_inv h'))
       \<and> (a \<noteq> b \<and> (\<exists>v\<in>set (map snd bxs). copy_throws T v) \<longrightarrow>
            (\<exists>h'. assign T a b h = Some (Inl (Thrown h'))
               \<and> list_inv h' a axs \<and> list_inv h' b bxs
               \<and> (\<forall>x. x < length (mem h) \<longrightarrow> nodes h' x = nodes h x \<and> size_m h' x = size_m h x)
               \<and> heap_inv h'))
       \<and> assign T a a h = Some (Inr (a, h))"
proof (intro conjI impI)
  assume c: "a \<noteq> b \<and> (\<forall>v\<in>set (map snd bxs). \<not> copy_throws T v)"
  then have ne: "a \<noteq> b" and nt: "\<forall>v\<in>set (map snd bxs). \<not> copy_throws T v" by simp_all
  from assign_step_returns [OF assms ne nt] obtain h' cxs where h':
    "assign T a b h = Some (Inr (a, h'))" "list_inv h' a cxs" "map snd cxs = map snd bxs"
    "heap_inv h'" "\<forall>k kxs. list_inv h k kxs \<and> k \<noteq> a \<longrightarrow> list_inv h' k kxs"
    by blast
  have b': "list_inv h' b bxs" using h'(5) assms(3) ne by blast
  have "traverse h' a = Some (Inr (map snd bxs))"
    using traverse_list [OF list_inv_chain [OF h'(2)]] h'(3) by simp
  with h'(1,2,3,4) b' equal_lists_compare_equal [OF h'(2) b' h'(3)]
  show "\<exists>h' cxs. assign T a b h = Some (Inr (a, h'))
               \<and> list_inv h' a cxs \<and> map snd cxs = map snd bxs \<and> list_inv h' b bxs
               \<and> traverse h' a = Some (Inr (map snd bxs))
               \<and> GetSize h' a = GetSize h' b
               \<and> operator_eq h' a b = Some (Inr True)
               \<and> heap_inv h'"
    by blast
next
  assume c: "a \<noteq> b \<and> (\<exists>v\<in>set (map snd bxs). copy_throws T v)"
  then have ne: "a \<noteq> b" and "\<not> (\<forall>v\<in>set (map snd bxs). \<not> copy_throws T v)" by simp_all
  from first_throwing [OF this(2)] obtain good bad rest where
    s: "map snd bxs = good @ bad # rest" "\<forall>v\<in>set good. \<not> copy_throws T v" "copy_throws T bad"
    by blast
  from assign_step_throws [OF assms(1,3) ne s] obtain h' where h':
    "assign T a b h = Some (Inl (Thrown h'))"
    "\<forall>x. x < length (mem h) \<longrightarrow> nodes h' x = nodes h x \<and> size_m h' x = size_m h x"
    "heap_inv h'" "\<forall>k kxs. list_inv h k kxs \<longrightarrow> list_inv h' k kxs"
    by blast
  with assms(2,3)
  show "\<exists>h'. assign T a b h = Some (Inl (Thrown h'))
               \<and> list_inv h' a axs \<and> list_inv h' b bxs
               \<and> (\<forall>x. x < length (mem h) \<longrightarrow> nodes h' x = nodes h x \<and> size_m h' x = size_m h x)
               \<and> heap_inv h'"
    by blast
next
  show "assign T a a h = Some (Inr (a, h))" by (simp add: assign_def)
qed

theorem assign_copies_or_leaves_witness:
  "exec_all T_nat [Call_init [1], Call_init [1, 2]] empty_heap = Some (Inr ((), h_prefix))
   \<and> list_inv h_prefix 0 [(2, 1)] \<and> list_inv h_prefix 3 [(5, 1), (6, 2)]
   \<and> \<not> copy_throws T_nat 1 \<and> \<not> copy_throws T_nat 2
   \<and> assign T_nat 0 3 h_prefix = Some (Inr (0, h_assigned))
   \<and> traverse h_assigned 0 = Some (Inr [1, 2])
   \<and> GetSize h_assigned 0 = GetSize h_assigned 3
   \<and> operator_eq h_assigned 0 3 = Some (Inr True)
   \<and> assign T_nat 0 0 h_prefix = Some (Inr (0, h_prefix))"
proof -
  have inv: "heap_inv h_prefix" by (rule run_keeps_inv [OF h_prefix_run])
  have nt: "\<not> copy_throws T_nat 1 \<and> \<not> copy_throws T_nat 2" by (simp add: T_nat_def)
  have r: "assign T_nat 0 3 h_prefix = Some (Inr (0, h_assigned))" by code_simp
  from assign_copies_or_leaves [OF inv h_prefix_first h_prefix_second, of T_nat] nt r
  have "traverse h_assigned 0 = Some (Inr [1, 2])
      \<and> GetSize h_assigned 0 = GetSize h_assigned 3
      \<and> operator_eq h_assigned 0 3 = Some (Inr True)
      \<and> assign T_nat 0 0 h_prefix = Some (Inr (0, h_prefix))"
    by auto
  with h_prefix_run h_prefix_first h_prefix_second nt r show ?thesis by simp
qed

text \<open>
  Claim C8. In a memory that satisfies the invariant, let \<open>src\<close> be a list none of
  whose elements throws when copied. The copy constructor returns a new list object
  \<open>c\<close>, well-formed, with the elements of \<open>src\<close> in their order and the size of \<open>src\<close>;
  \<^verbatim>\<open>operator==\<close> says the two are equal. \<open>src\<close> is what it was, and \<open>c\<close> and \<open>src\<close> have
  neither a node nor the sentinel in common. Whatever calls follow, as long as none
  of them is made to change \<open>src\<close> (none is a mutator of \<open>src\<close>, swaps it or assigns to
  it), \<open>src\<close> keeps its nodes, its elements, their order and its size; and the same
  holds for \<open>c\<close> under calls that are not made to change \<open>c\<close>.
\<close>

theorem copy_is_deep:
  assumes "heap_inv h" and "list_inv h src axs"
    and "\<forall>v\<in>set (map snd axs). \<not> copy_throws T v"
  shows "\<exists>c h' cxs. SingleLinkedList_copy T src h = Some (Inr (c, h'))
           \<and> list_inv h' c cxs \<and> map snd cxs = map snd axs \<and> list_inv h' src axs
           \<and> traverse h' c = Some (Inr (map snd axs))
           \<and> GetSize h' c = GetSize h' src
           \<and> operator_eq h' c src = Some (Inr True)
           \<and> c \<noteq> src \<and> footprint c cxs \<inter> footprint src axs = {}
           \<and> heap_inv h'
           \<and> (\<forall>cs. (\<forall>k\<in>set cs. src \<notin> targets k) \<longrightarrow>
                 (\<exists>r. exec_all T cs h' = Some r
                    \<and> (r = Inl Undefined \<or> (\<exists>h''. r = Inr ((), h'') \<and> list_inv h'' src axs))))
           \<and> (\<forall>cs. (\<forall>k\<in>set cs. c \<notin> targets k) \<longrightarrow>
                 (\<exists>r. exec_all T cs h' = Some r
                    \<and> (r = Inl Undefined \<or> (\<exists>h''. r = Inr ((), h'') \<and> list_inv h'' c cxs))))"
proof -
  let ?L = "length (mem h)"
  from copy_step_returns [OF assms] obtain h' zs where h':
    "SingleLinkedList_copy T src h = Some (Inr (?L, h'))" "list_inv h' ?L zs"
    "map snd zs = map snd axs" "heap_inv h'"
    "\<forall>k kxs. list_inv h k kxs \<longrightarrow> list_inv h' k kxs"
    by blast
  have src': "list_inv h' src axs" using h'(5) assms(2) by blast
  have "src < ?L" using footprint_below [OF assms(2), of src] by (simp add: footprint_def)
  then have ne: "?L \<noteq> src" by simp
  have d: "footprint ?L zs \<inter> footprint src axs = {}"
    by (rule heap_inv_disjoint [OF h'(4) h'(2) src' ne])
  have t: "traverse h' ?L = Some (Inr (map snd axs))"
    using traverse_list [OF list_inv_chain [OF h'(2)]] h'(3) by simp
  have runs: "\<exists>r. exec_all T cs h' = Some r
                \<and> (r = Inl Undefined \<or> (\<exists>h''. r = Inr ((), h'') \<and> list_inv h'' l lxs))"
    if "list_inv h' l lxs" "\<forall>k\<in>set cs. l \<notin> targets k" for l lxs cs
    using exec_all_outcome [OF h'(4), of T cs] that by blast
  have r1: "\<forall>cs. (\<forall>k\<in>set cs. src \<notin> targets k) \<longrightarrow>
                 (\<exists>r. exec_all T cs h' = Some r
                    \<and> (r = Inl Undefined \<or> (\<exists>h''. r = Inr ((), h'') \<and> list_inv h'' src axs)))"
    using runs [OF src'] by blast
  have r2: "\<forall>cs. (\<forall>k\<in>set cs. ?L \<notin> targets k) \<longrightarrow>
                 (\<exists>r. exec_all T cs h' = Some r
                    \<and> (r = Inl Undefined \<or> (\<exists>h''. r = Inr ((), h'') \<and> list_inv h'' ?L zs)))"
    using runs [OF h'(2)] by blast
  show ?thesis
    by (intro exI [of _ ?L] exI [of _ h'] exI [of _ zs] conjI)
       (rule h'(1) h'(2) h'(3) src' t ne d h'(4) r1 r2
          equal_lists_compare_equal [OF h'(2) src' h'(3)])+
qed

theorem copy_is_deep_witness:
  "exec_all T_nat [Call_init [1], Call_init [1, 2]] empty_heap = Some (Inr ((), h_prefix))
   \<and> list_inv h_prefix 3 [(5, 1), (6, 2)]
   \<and> \<not> copy_throws T_nat 1 \<and> \<not> copy_throws T_nat 2
   \<and> SingleLinkedList_copy T_nat 3 h_prefix = Some (Inr (7, h_copy))
   \<and> traverse h_copy 7 = Some (Inr [1, 2])
   \<and> operator_eq h_copy 7 3 = Some (Inr True)
   \<and> exec_all T_nat [Call_PushFront 7 9, Call_EraseAfter 7 1, Call_Clear 7] h_copy
       = Some (Inr ((), h_copy2))
   \<and> list_inv h_copy2 3 [(5, 1), (6, 2)]"
proof -
  let ?cs = "[Call_PushFront 7 9, Call_EraseAfter 7 1, Call_Clear 7]"
  have inv: "heap_inv h_prefix" by (rule run_keeps_inv [OF h_prefix_run])
  have nt: "\<forall>v\<in>set (map snd [(5::nat, 1::nat), (6, 2)]). \<not> copy_throws T_nat v"
    by (simp add: T_nat_def)
  have c: "SingleLinkedList_copy T_nat 3 h_prefix = Some (Inr (7, h_copy))" by code_simp
  have run: "exec_all T_nat ?cs h_copy = Some (Inr ((), h_copy2))" by code_simp
  have away: "\<forall>k\<in>set ?cs. 3 \<notin> targets k" by simp
  from copy_is_deep [OF inv h_prefix_second nt] c
  have facts: "traverse h_copy 7 = Some (Inr [1, 2])" "operator_eq h_copy 7 3 = Some (Inr True)"
    "\<forall>cs. (\<forall>k\<in>set cs. 3 \<notin> targets k) \<longrightarrow>
        (\<exists>r. exec_all T_nat cs h_copy = Some r
           \<and> (r = Inl Undefined \<or> (\<exists>h''. r = Inr ((), h'') \<and> list_inv h'' 3 [(5, 1), (6, 2)])))"
    by auto
  from facts(3) away obtain r where r: "exec_all T_nat ?cs h_copy = Some r"
    "r = Inl Undefined \<or> (\<exists>h''. r = Inr ((), h'') \<and> list_inv h'' 3 [(5, 1), (6, 2)])"
    by blast
  from r(1) run have "r = Inr ((), h_copy2)" by (metis option.inject)
  with r(2) have "list_inv h_copy2 3 [(5, 1), (6, 2)]" by auto
  with h_prefix_run h_prefix_second nt c run facts(1,2) show ?thesis by simp
qed

end
